theory Spec2Isabelle
  imports Main "HOL-Library.Finite_Map" "HOL-Library.Sublist" "HOL-Library.Char_ord"
    "HOL-Library.List_Lexorder"
begin

section \<open>Python values\<close>

text \<open>
  The structured documents handled by the engine are decoded JSON: \<open>None\<close>, booleans,
  integers, floats, strings, lists and dictionaries with string keys.

  \<^item> A dictionary is a finite map. Python compares dictionaries without regard to insertion
    order, and so does equality on \<open>fmap\<close>.
  \<^item> A string is a list of characters, one \<open>char\<close> for each code point (code points
    below 256).
  \<^item> A finite float is represented by the rational number it denotes and arithmetic on it
    is exact: rounding, NaN, the infinities and the sign of zero are outside the model.
  \<^item> Documents are trees: two places of a document never hold the same mutable object.
\<close>

datatype pyval =
    PNone
  | PBool bool
  | PInt int
  | PFloat rat
  | PStr string
  | PList "pyval list"
  | PDict "(string, pyval) fmap"

text \<open>The exceptions the modelled code can raise.\<close>

datatype error =
  KeyError | IndexError | TypeError | ValueError | AttributeError | IntegrityError

text \<open>\<open>type(v)\<close>\<close>

datatype pytype = TNone | TBool | TInt | TFloat | TStr | TList | TDict

fun type_of :: "pyval \<Rightarrow> pytype" where
  "type_of PNone = TNone"
| "type_of (PBool _) = TBool"
| "type_of (PInt _) = TInt"
| "type_of (PFloat _) = TFloat"
| "type_of (PStr _) = TStr"
| "type_of (PList _) = TList"
| "type_of (PDict _) = TDict"

text \<open>
  The numeric value of a number; \<open>bool\<close> is a subclass of \<open>int\<close> in Python, so
  \<open>True\<close> counts as 1 and \<open>False\<close> as 0.
\<close>

fun num_of :: "pyval \<Rightarrow> rat option" where
  "num_of (PBool b) = Some (if b then 1 else 0)"
| "num_of (PInt i) = Some (of_int i)"
| "num_of (PFloat r) = Some r"
| "num_of _ = None"

lemma fmran'_size [termination_simp]:
  assumes "v \<in> fmran' m"
  shows "size v < Suc (\<Sum>x\<in>fset (fset_of_fmap m). Suc (case x of (k, w) \<Rightarrow> size w))"
proof -
  from assms obtain k where "fmlookup m k = Some v"
    by (auto simp: fmran'_alt_def fmlookup_ran'_iff)
  then have mem: "(k, v) \<in> fset (fset_of_fmap m)"
    by (simp add: fset_of_fmap.rep_eq set_of_map_def)
  have "(\<Sum>x\<in>{(k, v)}. Suc (case x of (k, w) \<Rightarrow> size w))
      \<le> (\<Sum>x\<in>fset (fset_of_fmap m). Suc (case x of (k, w) \<Rightarrow> size w))"
    by (rule sum_mono2) (use mem in auto)
  then show ?thesis by simp
qed

text \<open>
  Python's \<open>==\<close>: numbers compare by value across \<open>bool\<close>, \<open>int\<close> and \<open>float\<close>
  (\<open>1 == 1.0 == True\<close>), lists element by element, dictionaries key by key.
\<close>

fun py_eq :: "pyval \<Rightarrow> pyval \<Rightarrow> bool" where
  "py_eq (PList xs) (PList ys) = list_all2 py_eq xs ys"
| "py_eq (PDict a) (PDict b) = fmrel py_eq a b"
| "py_eq a b =
     (case (num_of a, num_of b) of
        (Some x, Some y) \<Rightarrow> x = y
      | (None, None) \<Rightarrow> a = b
      | _ \<Rightarrow> False)"

text \<open>\<open>x in xs\<close> for a list \<open>xs\<close>\<close>

definition py_in :: "pyval \<Rightarrow> pyval list \<Rightarrow> bool" where
  "py_in x xs = list_ex (py_eq x) xs"

section \<open>The memory store (\<open>memory_store.py\<close>)\<close>

text \<open>
  A row of the table \<open>memories\<close>. The two hash columns may be \<open>NULL\<close>; the JSON columns
  are held decoded. The table is a list of rows in the order in which a scan returns them.
\<close>

record memory_record =
  mem_id :: string
  content_hash :: "string option"
  perceptual_hash :: "string option"
  structured_content :: pyval
  summary :: pyval
  version :: int
  created_at :: string
  updated_at :: string
  metadata :: pyval

text \<open>\<open>get_memory\<close>: \<open>SELECT * FROM memories WHERE id = ?\<close>, \<open>fetchone\<close>.\<close>

definition get_memory :: "memory_record list \<Rightarrow> string \<Rightarrow> memory_record option" where
  "get_memory rows memory_id = find (\<lambda>r. mem_id r = memory_id) rows"


text \<open>The local function \<open>hamming_distance\<close> of \<open>find_by_perceptual_hash\<close>.\<close>

definition hamming_distance :: "string \<Rightarrow> string \<Rightarrow> int" where
  "hamming_distance s1 s2 =
     (if length s1 \<noteq> length s2 then 1000
      else int (length (filter (\<lambda>(c1, c2). c1 \<noteq> c2) (zip s1 s2))))"

text \<open>
  The loop over the candidates; the state is \<open>(best_match, min_dist)\<close>. A row whose hash
  is \<open>NULL\<close> or empty is passed over (\<open>if not candidate_hash: continue\<close>).
\<close>

fun scan_candidates ::
  "string \<Rightarrow> int \<Rightarrow> memory_record list \<Rightarrow> string option \<times> int \<Rightarrow> string option \<times> int" where
  "scan_candidates target_hash threshold [] st = st"
| "scan_candidates target_hash threshold (row # rows) (best_match, min_dist) =
     (case perceptual_hash row of
        None \<Rightarrow> scan_candidates target_hash threshold rows (best_match, min_dist)
      | Some candidate_hash \<Rightarrow>
          if candidate_hash = [] then
            scan_candidates target_hash threshold rows (best_match, min_dist)
          else
            let dist = hamming_distance target_hash candidate_hash in
            if dist \<le> threshold \<and> dist < min_dist then
              scan_candidates target_hash threshold rows (Some (mem_id row), dist)
            else scan_candidates target_hash threshold rows (best_match, min_dist))"

text \<open>
  \<open>find_by_perceptual_hash\<close>. The final test \<open>if best_match:\<close> is a truth test, so an
  empty id counts as no match.
\<close>

definition find_by_perceptual_hash ::
  "memory_record list \<Rightarrow> string \<Rightarrow> int \<Rightarrow> memory_record option" where
  "find_by_perceptual_hash rows p_hash threshold =
     (case fst (scan_candidates p_hash threshold rows (None, 1000)) of
        None \<Rightarrow> None
      | Some best_match \<Rightarrow> if best_match = [] then None else get_memory rows best_match)"

section \<open>Strings\<close>

text \<open>\<open>key.startswith('_')\<close>\<close>

definition startswith_underscore :: "string \<Rightarrow> bool" where
  "startswith_underscore key = (case key of [] \<Rightarrow> False | c # _ \<Rightarrow> c = CHR ''_'')"

text \<open>\<open>k in s\<close> for strings: \<open>k\<close> occurs in \<open>s\<close> as a contiguous part.\<close>

fun is_substr :: "string \<Rightarrow> string \<Rightarrow> bool" where
  "is_substr k [] = (k = [])"
| "is_substr k (c # cs) = (prefix k (c # cs) \<or> is_substr k cs)"

text \<open>
  The characters that \<open>str.split()\<close>, \<open>str.strip()\<close> and \<open>int()\<close> treat as white space,
  among the code points below 256.
\<close>

definition is_space :: "char \<Rightarrow> bool" where
  "is_space c = ((of_char c :: nat) \<in> {9, 10, 11, 12, 13, 28, 29, 30, 31, 32, 133, 160})"

text \<open>\<open>str.lower()\<close> on the code points below 256.\<close>

definition lower_char :: "char \<Rightarrow> char" where
  "lower_char c =
     (let n = (of_char c :: nat) in
      if (65 \<le> n \<and> n \<le> 90) \<or> (192 \<le> n \<and> n \<le> 222 \<and> n \<noteq> 215) then char_of (n + 32) else c)"

definition py_lower :: "string \<Rightarrow> string" where
  "py_lower s = map lower_char s"

text \<open>\<open>str.split()\<close>: the maximal runs of characters that are not white space.\<close>

fun split_ws :: "string \<Rightarrow> string \<Rightarrow> string list" where
  "split_ws [] w = (if w = [] then [] else [rev w])"
| "split_ws (c # cs) w =
     (if is_space c then (if w = [] then split_ws cs [] else rev w # split_ws cs [])
      else split_ws cs (c # w))"

definition py_split :: "string \<Rightarrow> string list" where
  "py_split s = split_ws s []"

text \<open>
  \<open>int(s)\<close> for a string: white space around, an optional sign, decimal digits, single
  underscores between digits. \<open>None\<close> stands for \<open>ValueError\<close>.
\<close>

definition is_digit :: "char \<Rightarrow> bool" where
  "is_digit c = (48 \<le> (of_char c :: nat) \<and> (of_char c :: nat) \<le> 57)"

definition digit_val :: "char \<Rightarrow> nat" where
  "digit_val c = of_char c - 48"

fun parse_digits :: "string \<Rightarrow> nat \<Rightarrow> nat option" where
  "parse_digits [] acc = Some acc"
| "parse_digits [c] acc = (if is_digit c then Some (10 * acc + digit_val c) else None)"
| "parse_digits (c # d # cs) acc =
     (if is_digit c then parse_digits (d # cs) (10 * acc + digit_val c)
      else if c = CHR ''_'' \<and> is_digit d then parse_digits cs (10 * acc + digit_val d)
      else None)"

definition parse_nat :: "string \<Rightarrow> nat option" where
  "parse_nat s =
     (case s of [] \<Rightarrow> None
      | c # cs \<Rightarrow> if is_digit c then parse_digits cs (digit_val c) else None)"

definition py_strip :: "string \<Rightarrow> string" where
  "py_strip s = rev (dropWhile is_space (rev (dropWhile is_space s)))"

definition py_int :: "string \<Rightarrow> int option" where
  "py_int s =
     (case py_strip s of
        [] \<Rightarrow> None
      | c # cs \<Rightarrow>
          if c = CHR ''-'' then map_option (\<lambda>n. - int n) (parse_nat cs)
          else if c = CHR ''+'' then map_option int (parse_nat cs)
          else map_option int (parse_nat (c # cs)))"

section \<open>The diff engine (\<open>updater.py\<close>)\<close>

text \<open>\<open>DiffOperation\<close>; \<open>old_value\<close> and \<open>new_value\<close> default to \<open>None\<close>, \<open>confidence\<close> to 1.\<close>

record diff_operation =
  op :: string
  path :: "string list"
  old_value :: pyval
  new_value :: pyval
  confidence :: rat

text \<open>\<open>_compute_similarity\<close>\<close>

definition compute_similarity :: "pyval \<Rightarrow> pyval \<Rightarrow> rat" where
  "compute_similarity old_val new_val =
     (if py_eq old_val new_val then 1
      else case (old_val, new_val) of
        (PStr a, PStr b) \<Rightarrow>
          if a = [] \<or> b = [] then 0
          else
            let old_words = set (py_split (py_lower a));
                new_words = set (py_split (py_lower b))
            in if old_words = {} \<or> new_words = {} then 0
               else of_nat (card (old_words \<inter> new_words)) / of_nat (card (old_words \<union> new_words))
      | _ \<Rightarrow>
          (case (num_of old_val, num_of new_val) of
             (Some x, Some y) \<Rightarrow>
               if x = 0 \<and> y = 0 then 1
               else if x = 0 \<or> y = 0 then 0
               else 1 - \<bar>x - y\<bar> / max \<bar>x\<bar> \<bar>y\<bar>
           | _ \<Rightarrow> 0))"

text \<open>\<open>isinstance(x, (str, int, float, bool))\<close>: \<open>None\<close> is not among them.\<close>

fun is_primitive :: "pyval \<Rightarrow> bool" where
  "is_primitive (PStr _) = True"
| "is_primitive (PInt _) = True"
| "is_primitive (PFloat _) = True"
| "is_primitive (PBool _) = True"
| "is_primitive _ = False"

text \<open>\<open>_compare_lists\<close>; the operations it appends, in the order of the appends.\<close>

definition compare_lists :: "pyval list \<Rightarrow> pyval list \<Rightarrow> string list \<Rightarrow> diff_operation list" where
  "compare_lists old_list new_list p =
     (if list_all is_primitive old_list \<and> list_all is_primitive new_list then
        let added = filter (\<lambda>x. \<not> py_in x old_list) new_list;
            removed = filter (\<lambda>x. \<not> py_in x new_list) old_list
        in map (\<lambda>item. \<lparr>op = ''add'', path = p, old_value = PNone, new_value = item,
                         confidence = 1\<rparr>) added
           @ map (\<lambda>item. \<lparr>op = ''remove'', path = p, old_value = item, new_value = PNone,
                           confidence = 1\<rparr>) removed
      else if py_eq (PList old_list) (PList new_list) then []
      else [\<lparr>op = ''update'', path = p, old_value = PList old_list, new_value = PList new_list,
             confidence = 4 / 5\<rparr>])"

text \<open>\<open>d.get(key)\<close>\<close>

definition dict_get :: "(string, pyval) fmap \<Rightarrow> string \<Rightarrow> pyval" where
  "dict_get d key = (case fmlookup d key of None \<Rightarrow> PNone | Some v \<Rightarrow> v)"

text \<open>
  \<open>_compare_values\<close> and \<open>_compare_dicts\<close>. The loop of \<open>_compare_dicts\<close> runs over a
  Python \<open>set\<close> of keys, whose order of iteration the language leaves open: the order is
  the parameter \<open>iter\<close>, which lists the keys of the set met at a path.
\<close>

function compare_values ::
    "(string list \<Rightarrow> string fset \<Rightarrow> string list) \<Rightarrow> pyval \<Rightarrow> pyval \<Rightarrow> string list
      \<Rightarrow> diff_operation list"
  and compare_dicts ::
    "(string list \<Rightarrow> string fset \<Rightarrow> string list) \<Rightarrow> (string, pyval) fmap
      \<Rightarrow> (string, pyval) fmap \<Rightarrow> string list \<Rightarrow> diff_operation list" where
  "compare_values iter old_val new_val p =
     (if type_of old_val \<noteq> type_of new_val then
        [\<lparr>op = ''update'', path = p, old_value = old_val, new_value = new_val, confidence = 1\<rparr>]
      else case old_val of
        PDict old_dict \<Rightarrow>
          (case new_val of
             PDict new_dict \<Rightarrow> compare_dicts iter old_dict new_dict p
           | _ \<Rightarrow> [])
      | PList old_list \<Rightarrow>
          (case new_val of
             PList new_list \<Rightarrow> compare_lists old_list new_list p
           | _ \<Rightarrow> [])
      | _ \<Rightarrow>
          if \<not> py_eq old_val new_val then
            [\<lparr>op = ''update'', path = p, old_value = old_val, new_value = new_val,
              confidence = compute_similarity old_val new_val\<rparr>]
          else [])"
| "compare_dicts iter old_dict new_dict p =
     concat (map
       (\<lambda>key.
          if startswith_underscore key then []
          else
            case fmlookup old_dict key of
              None \<Rightarrow>
                [\<lparr>op = ''add'', path = p @ [key], old_value = PNone,
                  new_value = dict_get new_dict key, confidence = 1\<rparr>]
            | Some old_val \<Rightarrow>
                (case fmlookup new_dict key of
                   None \<Rightarrow>
                     [\<lparr>op = ''remove'', path = p @ [key], old_value = old_val,
                       new_value = PNone, confidence = 1\<rparr>]
                 | Some new_val \<Rightarrow> compare_values iter old_val new_val (p @ [key])))
       (iter p (fmdom old_dict |\<union>| fmdom new_dict)))"
  by pat_completeness auto
termination
proof (relation "measure (\<lambda>x. case x of
          Inl (iter, old_val, new_val, p) \<Rightarrow> 2 * size old_val + 1
        | Inr (iter, old_dict, new_dict, p) \<Rightarrow> 2 * size (PDict old_dict))")
  show "wf (measure (\<lambda>x. case x of
          Inl (iter, old_val, new_val, p) \<Rightarrow> 2 * size old_val + 1
        | Inr (iter, old_dict, new_dict, p) \<Rightarrow> 2 * size (PDict old_dict)))"
    by simp
next
  fix iter :: "string list \<Rightarrow> string fset \<Rightarrow> string list"
  fix old_val new_val :: pyval and p :: "string list"
  fix old_dict new_dict :: "(string, pyval) fmap"
  assume "old_val = PDict old_dict"
  then show "(Inr (iter, old_dict, new_dict, p), Inl (iter, old_val, new_val, p))
      \<in> measure (\<lambda>x. case x of
          Inl (iter, old_val, new_val, p) \<Rightarrow> 2 * size old_val + 1
        | Inr (iter, old_dict, new_dict, p) \<Rightarrow> 2 * size (PDict old_dict))"
    by simp
next
  fix iter :: "string list \<Rightarrow> string fset \<Rightarrow> string list"
  fix old_dict new_dict :: "(string, pyval) fmap" and p :: "string list"
  fix key :: string and old_val new_val :: pyval
  assume "fmlookup old_dict key = Some old_val"
  then have "old_val \<in> fmran' old_dict"
    by (rule fmran'I)
  from fmran'_size[OF this]
  show "(Inl (iter, old_val, new_val, p @ [key]), Inr (iter, old_dict, new_dict, p))
      \<in> measure (\<lambda>x. case x of
          Inl (iter, old_val, new_val, p) \<Rightarrow> 2 * size old_val + 1
        | Inr (iter, old_dict, new_dict, p) \<Rightarrow> 2 * size (PDict old_dict))"
    by simp
qed

text \<open>\<open>_compute_structured_diff\<close>: the loop of \<open>_compare_dicts\<close> at the root.\<close>

definition compute_structured_diff ::
  "(string list \<Rightarrow> string fset \<Rightarrow> string list) \<Rightarrow> (string, pyval) fmap
    \<Rightarrow> (string, pyval) fmap \<Rightarrow> diff_operation list" where
  "compute_structured_diff iter old new =
     concat (map
       (\<lambda>key.
          if startswith_underscore key then []
          else
            case fmlookup old key of
              None \<Rightarrow>
                [\<lparr>op = ''add'', path = [key], old_value = PNone,
                  new_value = dict_get new key, confidence = 1\<rparr>]
            | Some old_val \<Rightarrow>
                (case fmlookup new key of
                   None \<Rightarrow>
                     [\<lparr>op = ''remove'', path = [key], old_value = old_val,
                       new_value = PNone, confidence = 1\<rparr>]
                 | Some new_val \<Rightarrow> compare_values iter old_val new_val [key]))
       (iter [] (fmdom old |\<union>| fmdom new)))"

text \<open>
  An order of iteration over sets of keys is admissible when it lists every key of the
  set once. One such order lists the keys in ascending order.
\<close>

definition valid_iter :: "(string list \<Rightarrow> string fset \<Rightarrow> string list) \<Rightarrow> bool" where
  "valid_iter iter = (\<forall>p S. distinct (iter p S) \<and> set (iter p S) = fset S)"

definition sorted_iter :: "string list \<Rightarrow> string fset \<Rightarrow> string list" where
  "sorted_iter p S = sorted_list_of_fset S"

section \<open>The patcher (\<open>updater.py\<close>)\<close>

text \<open>
  The three functions below walk down \<open>path[:-1]\<close> and then act on \<open>path[-1]\<close>. The
  Python mutates the document in place; the model returns the container rebuilt around
  the changed child. An exception is the left summand. A walk that raises has changed
  nothing before: the only change made on the way down is the creation of an empty
  dictionary under a missing key, and below a fresh dictionary every step succeeds.
\<close>

text \<open>\<open>_update_nested\<close>\<close>

fun update_nested :: "pyval \<Rightarrow> string list \<Rightarrow> pyval \<Rightarrow> error + pyval" where
  "update_nested current [] v =
     (case current of
        PDict d \<Rightarrow> Inl IndexError
      | PList xs \<Rightarrow> Inl IndexError
      | _ \<Rightarrow> Inr current)"
| "update_nested current [last_key] v =
     (case current of
        PDict d \<Rightarrow> Inr (PDict (fmupd last_key v d))
      | PList xs \<Rightarrow>
          (case py_int last_key of
             None \<Rightarrow> Inl ValueError
           | Some index \<Rightarrow>
               if 0 \<le> index \<and> index < int (length xs) then Inr (PList (xs[nat index := v]))
               else Inl IndexError)
      | _ \<Rightarrow> Inr current)"
| "update_nested current (key # rest) v =
     (case current of
        PDict d \<Rightarrow>
          (case update_nested (case fmlookup d key of None \<Rightarrow> PDict fmempty | Some c \<Rightarrow> c)
                  rest v of
             Inl e \<Rightarrow> Inl e
           | Inr c' \<Rightarrow> Inr (PDict (fmupd key c' d)))
      | _ \<Rightarrow> Inl TypeError)"

text \<open>\<open>_add_to_nested\<close>\<close>

fun add_to_nested :: "pyval \<Rightarrow> string list \<Rightarrow> pyval \<Rightarrow> error + pyval" where
  "add_to_nested current [] v = Inl IndexError"
| "add_to_nested current [last_key] v =
     (case current of
        PDict d \<Rightarrow>
          (case fmlookup d last_key of
             None \<Rightarrow> Inr (PDict (fmupd last_key v d))
           | Some existing \<Rightarrow>
               (case existing of
                  PList xs \<Rightarrow> Inr (PDict (fmupd last_key (PList (xs @ [v])) d))
                | _ \<Rightarrow> Inr (PDict (fmupd last_key (PList [existing, v]) d))))
      | PList xs \<Rightarrow>
          (case py_int last_key of
             None \<Rightarrow> Inl ValueError
           | Some index \<Rightarrow>
               if index \<ge> int (length xs) then
                 Inr (PList ((xs @ replicate (nat (index - int (length xs) + 1)) PNone)
                               [nat index := v]))
               else if 0 \<le> index then Inr (PList (xs[nat index := v]))
               else if - int (length xs) \<le> index then
                 Inr (PList (xs[nat (int (length xs) + index) := v]))
               else Inl IndexError)
      | _ \<Rightarrow> Inr current)"
| "add_to_nested current (key # rest) v =
     (case current of
        PDict d \<Rightarrow>
          (case add_to_nested (case fmlookup d key of None \<Rightarrow> PDict fmempty | Some c \<Rightarrow> c)
                  rest v of
             Inl e \<Rightarrow> Inl e
           | Inr c' \<Rightarrow> Inr (PDict (fmupd key c' d)))
      | _ \<Rightarrow> Inl TypeError)"

text \<open>\<open>_remove_from_nested\<close>\<close>

fun remove_from_nested :: "pyval \<Rightarrow> string list \<Rightarrow> error + pyval" where
  "remove_from_nested current [] = Inl IndexError"
| "remove_from_nested current [last_key] =
     (case current of
        PDict d \<Rightarrow>
          if last_key |\<in>| fmdom d then Inr (PDict (fmdrop last_key d)) else Inr current
      | PList xs \<Rightarrow>
          (case py_int last_key of
             None \<Rightarrow> Inl ValueError
           | Some index \<Rightarrow>
               if 0 \<le> index \<and> index < int (length xs) then
                 Inr (PList (take (nat index) xs @ drop (Suc (nat index)) xs))
               else Inr current)
      | _ \<Rightarrow> Inr current)"
| "remove_from_nested current (key # rest) =
     (case current of
        PDict d \<Rightarrow>
          (case fmlookup d key of
             None \<Rightarrow> Inr current
           | Some c \<Rightarrow>
               (case remove_from_nested c rest of
                  Inl e \<Rightarrow> Inl e
                | Inr c' \<Rightarrow> Inr (PDict (fmupd key c' d))))
      | PList xs \<Rightarrow> if \<not> py_in (PStr key) xs then Inr current else Inl TypeError
      | PStr s \<Rightarrow> if \<not> is_substr key s then Inr current else Inl TypeError
      | _ \<Rightarrow> Inl TypeError)"

text \<open>One turn of the loop of \<open>apply_diff\<close>, before the \<open>except\<close> clause.\<close>

definition apply_operation :: "pyval \<Rightarrow> diff_operation \<Rightarrow> error + pyval" where
  "apply_operation content operation =
     (if op operation = ''update'' then
        update_nested content (path operation) (new_value operation)
      else if op operation = ''add'' then
        add_to_nested content (path operation) (new_value operation)
      else if op operation = ''remove'' then
        remove_from_nested content (path operation)
      else Inr content)"

text \<open>
  The loop of \<open>apply_diff\<close>: \<open>except (KeyError, IndexError, TypeError)\<close> skips the
  operation; any other exception leaves the function.
\<close>

fun apply_operations :: "pyval \<Rightarrow> diff_operation list \<Rightarrow> error + pyval" where
  "apply_operations content [] = Inr content"
| "apply_operations content (operation # rest) =
     (case apply_operation content operation of
        Inr content' \<Rightarrow> apply_operations content' rest
      | Inl e \<Rightarrow>
          if e = KeyError \<or> e = IndexError \<or> e = TypeError then apply_operations content rest
          else Inl e)"

text \<open>\<open>apply_diff\<close>; the deep copy is the identity on values.\<close>

definition apply_diff :: "(string, pyval) fmap \<Rightarrow> diff_operation list \<Rightarrow> error + pyval" where
  "apply_diff old_content diff_operations = apply_operations (PDict old_content) diff_operations"

section \<open>Summary regeneration (\<open>updater.py\<close>)\<close>

text \<open>\<open>sep.join(xs)\<close>\<close>

fun py_join :: "string \<Rightarrow> string list \<Rightarrow> string" where
  "py_join sep [] = []"
| "py_join sep [x] = x"
| "py_join sep (x # y # ys) = x @ sep @ py_join sep (y # ys)"

text \<open>\<open>s.split('. ')\<close>; the second argument collects the current piece, reversed.\<close>

fun split_dot_space :: "string \<Rightarrow> string \<Rightarrow> string list" where
  "split_dot_space [] w = [rev w]"
| "split_dot_space [c] w = [rev (c # w)]"
| "split_dot_space (c # d # cs) w =
     (if c = CHR ''.'' \<and> d = CHR '' '' then rev w # split_dot_space cs []
      else split_dot_space (d # cs) (c # w))"

text \<open>
  The test on a change: one of the four field names occurs in the path joined by spaces.
\<close>

definition is_significant :: "string list \<Rightarrow> bool" where
  "is_significant p =
     list_ex (\<lambda>keyword. is_substr keyword (py_join '' '' p))
       [''extracted_text'', ''key_points'', ''ui_components'', ''content_type'']"

text \<open>\<open>path[-1]\<close>\<close>

definition path_last :: "string list \<Rightarrow> error + string" where
  "path_last p = (if p = [] then Inl IndexError else Inr (last p))"

text \<open>
  The description that a significant change adds to \<open>significant_changes\<close>, if any. The
  text that an f-string gives for a value is the parameter \<open>fmt\<close>.
\<close>

definition describe_change :: "(pyval \<Rightarrow> string) \<Rightarrow> diff_operation \<Rightarrow> error + string option" where
  "describe_change fmt change =
     (if op change = ''add'' then
        (case path_last (path change) of
           Inl e \<Rightarrow> Inl e
         | Inr l \<Rightarrow> Inr (Some (''Added '' @ l @ '': '' @ fmt (new_value change))))
      else if op change = ''remove'' then
        (case path_last (path change) of
           Inl e \<Rightarrow> Inl e
         | Inr l \<Rightarrow> Inr (Some (''Removed '' @ l @ '': '' @ fmt (old_value change))))
      else if op change = ''update'' then
        (case (old_value change, new_value change) of
           (PStr old_text, PStr new_text) \<Rightarrow>
             if int (length new_text) - int (length old_text) > 50 then
               (case path_last (path change) of
                  Inl e \<Rightarrow> Inl e
                | Inr l \<Rightarrow> Inr (Some (''Updated '' @ l @ '' with additional content'')))
             else Inr None
         | _ \<Rightarrow> Inr None)
      else Inr None)"

text \<open>The loop that fills \<open>significant_changes\<close>.\<close>

fun significant_changes :: "(pyval \<Rightarrow> string) \<Rightarrow> diff_operation list \<Rightarrow> error + string list" where
  "significant_changes fmt [] = Inr []"
| "significant_changes fmt (change # changes) =
     (if is_significant (path change) then
        (case describe_change fmt change of
           Inl e \<Rightarrow> Inl e
         | Inr None \<Rightarrow> significant_changes fmt changes
         | Inr (Some s) \<Rightarrow>
             (case significant_changes fmt changes of
                Inl e \<Rightarrow> Inl e
              | Inr rest \<Rightarrow> Inr (s # rest)))
      else significant_changes fmt changes)"

text \<open>The summary before the cut at 500 characters.\<close>

definition updated_summary :: "string \<Rightarrow> string \<Rightarrow> string" where
  "updated_summary old_summary changes_text =
     (if length old_summary < 200 then
        old_summary @ '' [Updated: '' @ changes_text @ '']''
      else
        let sentences = split_dot_space old_summary [] in
        if length sentences > 1 then
          py_join ''. '' (hd sentences # (''Updated: '' @ changes_text) # tl sentences)
        else old_summary @ '' [Updated: '' @ changes_text @ '']'')"

text \<open>\<open>_generate_incremental_summary\<close>; \<open>new_content\<close> is not used by the function.\<close>

definition generate_incremental_summary ::
  "(pyval \<Rightarrow> string) \<Rightarrow> string \<Rightarrow> diff_operation list \<Rightarrow> pyval \<Rightarrow> error + string" where
  "generate_incremental_summary fmt old_summary changes new_content =
     (if changes = [] then Inr old_summary
      else
        case significant_changes fmt changes of
          Inl e \<Rightarrow> Inl e
        | Inr significant \<Rightarrow>
            if significant = [] then Inr old_summary
            else
              let changes_text = py_join ''; '' (take 3 significant);
                  updated = updated_summary old_summary changes_text
              in if length updated > 500 then Inr (take 497 updated @ ''...'')
                 else Inr updated)"

text \<open>
  A formatting function for the examples; it agrees with \<open>str\<close> on strings, \<open>None\<close>
  and booleans.
\<close>

fun fmt_example :: "pyval \<Rightarrow> string" where
  "fmt_example (PStr s) = s"
| "fmt_example PNone = ''None''"
| "fmt_example (PBool b) = (if b then ''True'' else ''False'')"
| "fmt_example v = []"

section \<open>Incremental update and the engine (\<open>updater.py\<close>, \<open>engine.py\<close>)\<close>

















section \<open>Nearest match: properties\<close>

lemma scan_candidates_origin:
  assumes "fst (scan_candidates q t rows (b, m)) = Some i"
  shows "b = Some i \<or>
         (\<exists>r \<in> set rows. mem_id r = i \<and>
            (\<exists>h. perceptual_hash r = Some h \<and> hamming_distance q h < m))"
  using assms
proof (induction rows arbitrary: b m)
  case Nil
  then show ?case by simp
next
  case (Cons row rows)
  show ?case
  proof (cases "perceptual_hash row")
    case None
    with Cons.prems have "fst (scan_candidates q t rows (b, m)) = Some i" by simp
    from Cons.IH[OF this] show ?thesis by auto
  next
    case (Some h)
    show ?thesis
    proof (cases "h \<noteq> [] \<and> hamming_distance q h \<le> t \<and> hamming_distance q h < m")
      case True
      with Some Cons.prems
      have "fst (scan_candidates q t rows (Some (mem_id row), hamming_distance q h)) = Some i"
        by (simp add: Let_def)
      from Cons.IH[OF this] True Some show ?thesis by fastforce
    next
      case False
      with Some Cons.prems have "fst (scan_candidates q t rows (b, m)) = Some i"
        by (auto simp: Let_def split: if_splits)
      from Cons.IH[OF this] show ?thesis by auto
    qed
  qed
qed

lemma get_memory_distinct:
  assumes "distinct (map mem_id rows)" "r \<in> set rows"
  shows "get_memory rows (mem_id r) = Some r"
  using assms unfolding get_memory_def
  by (induction rows) (auto simp: image_iff)

text \<open>
  C10. A stored record whose perceptual hash has another length than the query is at
  distance 1000 from it and is never the record returned by the nearest-match lookup.
  The ids of the table are distinct (\<open>id\<close> is its primary key). The claim restricts the
  threshold to values below 1000; the code excludes such a record at every threshold,
  because the running minimum starts at 1000 and is only replaced by a smaller distance.
\<close>

theorem length_mismatch_never_matched:
  assumes "distinct (map mem_id rows)"
    and "r \<in> set rows"
    and "perceptual_hash r = Some h"
    and "length h \<noteq> length q"
    and "t < 1000"
  shows "hamming_distance q h = 1000 \<and> find_by_perceptual_hash rows q t \<noteq> Some r"
proof
  show d: "hamming_distance q h = 1000"
    using assms(4) by (auto simp: hamming_distance_def)
  show "find_by_perceptual_hash rows q t \<noteq> Some r"
  proof
    assume ret: "find_by_perceptual_hash rows q t = Some r"
    then obtain i where i: "fst (scan_candidates q t rows (None, 1000)) = Some i"
      and g: "get_memory rows i = Some r"
      by (auto simp: find_by_perceptual_hash_def split: option.splits if_splits)
    from g have "mem_id r = i"
      by (auto simp: get_memory_def find_Some_iff)
    from scan_candidates_origin[OF i] obtain r' h'
      where r': "r' \<in> set rows" "mem_id r' = i" "perceptual_hash r' = Some h'"
        "hamming_distance q h' < 1000"
      by auto
    from get_memory_distinct[OF assms(1) r'(1)] r'(2) g have "r' = r" by simp
    with r'(3,4) assms(3) d show False by simp
  qed
qed

theorem length_mismatch_never_matched_witness:
  "hamming_distance ''abcd'' ''abcde'' = 1000 \<and>
   find_by_perceptual_hash
     [\<lparr>mem_id = ''m1'', content_hash = Some ''c1'', perceptual_hash = Some ''abcde'',
       structured_content = PNone, summary = PStr ''s'', version = 1,
       created_at = ''t0'', updated_at = ''t0'', metadata = PNone\<rparr>] ''abcd'' 4
   \<noteq> Some \<lparr>mem_id = ''m1'', content_hash = Some ''c1'', perceptual_hash = Some ''abcde'',
       structured_content = PNone, summary = PStr ''s'', version = 1,
       created_at = ''t0'', updated_at = ''t0'', metadata = PNone\<rparr>"
  using length_mismatch_never_matched
    [of "[\<lparr>mem_id = ''m1'', content_hash = Some ''c1'', perceptual_hash = Some ''abcde'',
       structured_content = PNone, summary = PStr ''s'', version = 1,
       created_at = ''t0'', updated_at = ''t0'', metadata = PNone\<rparr>]"
      "\<lparr>mem_id = ''m1'', content_hash = Some ''c1'', perceptual_hash = Some ''abcde'',
       structured_content = PNone, summary = PStr ''s'', version = 1,
       created_at = ''t0'', updated_at = ''t0'', metadata = PNone\<rparr>"
      "''abcde''" "''abcd''" 4]
  by simp


text \<open>
  The nearest-match rule in the words of the specification: among the rows that carry a
  perceptual hash and lie within the threshold, the first one at the minimal distance.
\<close>

definition is_candidate :: "string \<Rightarrow> int \<Rightarrow> memory_record \<Rightarrow> bool" where
  "is_candidate q t r =
     (case perceptual_hash r of None \<Rightarrow> False | Some h \<Rightarrow> h \<noteq> [] \<and> hamming_distance q h \<le> t)"

definition distance_to :: "string \<Rightarrow> memory_record \<Rightarrow> int" where
  "distance_to q r = (case perceptual_hash r of None \<Rightarrow> 1000 | Some h \<Rightarrow> hamming_distance q h)"

definition nearest_match :: "memory_record list \<Rightarrow> string \<Rightarrow> int \<Rightarrow> memory_record option" where
  "nearest_match rows q t =
     (let cs = filter (is_candidate q t) rows in
      if cs = [] then None
      else find (\<lambda>r. distance_to q r = Min (set (map (distance_to q) cs))) cs)"

lemma scan_candidates_step:
  "scan_candidates q t (row # rows) (b, m) =
     (if is_candidate q t row \<and> distance_to q row < m
      then scan_candidates q t rows (Some (mem_id row), distance_to q row)
      else scan_candidates q t rows (b, m))"
  by (auto simp: is_candidate_def distance_to_def Let_def split: option.splits)

lemma scan_candidates_char:
  "scan_candidates q t rows (b, m) = (b', m') \<Longrightarrow>
     m' \<le> m \<and> (\<forall>r \<in> set rows. is_candidate q t r \<longrightarrow> distance_to q r < m \<longrightarrow> m' \<le> distance_to q r) \<and>
     (((b', m') = (b, m) \<and> (\<forall>r \<in> set rows. is_candidate q t r \<longrightarrow> m \<le> distance_to q r)) \<or>
      (\<exists>xs r ys. rows = xs @ r # ys \<and> b' = Some (mem_id r) \<and> is_candidate q t r \<and>
          distance_to q r = m' \<and> m' < m \<and>
          (\<forall>x \<in> set xs. is_candidate q t x \<longrightarrow> m' < distance_to q x)))"
proof (induction rows arbitrary: b m)
  case Nil
  then show ?case by simp
next
  case (Cons row rows)
  show ?case
  proof (cases "is_candidate q t row \<and> distance_to q row < m")
    case True
    with Cons.prems have s: "scan_candidates q t rows (Some (mem_id row), distance_to q row) = (b', m')"
      by (simp add: scan_candidates_step del: scan_candidates.simps)
    note ih = Cons.IH[OF s]
    from ih have le: "m' \<le> distance_to q row" by simp
    from ih have lb: "\<forall>r \<in> set rows. is_candidate q t r \<longrightarrow> distance_to q r < distance_to q row \<longrightarrow> m' \<le> distance_to q r" by simp
    have c1: "m' \<le> m" using le True by simp
    have c2: "\<forall>r \<in> set (row # rows). is_candidate q t r \<longrightarrow> distance_to q r < m \<longrightarrow> m' \<le> distance_to q r"
      using le lb by (auto simp: not_less intro: order_trans)
    from ih consider
      (same) "(b', m') = (Some (mem_id row), distance_to q row)"
        "\<forall>r \<in> set rows. is_candidate q t r \<longrightarrow> distance_to q row \<le> distance_to q r"
      | (later) xs r ys where "rows = xs @ r # ys" "b' = Some (mem_id r)" "is_candidate q t r"
          "distance_to q r = m'" "m' < distance_to q row"
          "\<forall>x \<in> set xs. is_candidate q t x \<longrightarrow> m' < distance_to q x"
      by blast
    then have c3: "\<exists>xs r ys. row # rows = xs @ r # ys \<and> b' = Some (mem_id r) \<and> is_candidate q t r \<and>
          distance_to q r = m' \<and> m' < m \<and>
          (\<forall>x \<in> set xs. is_candidate q t x \<longrightarrow> m' < distance_to q x)"
    proof cases
      case same
      then show ?thesis using True
        by (intro exI[of _ "[]"] exI[of _ row] exI[of _ rows]) auto
    next
      case later
      then show ?thesis using True
        by (intro exI[of _ "row # xs"] exI[of _ r] exI[of _ ys]) auto
    qed
    from c1 c2 c3 show ?thesis by blast
  next
    case False
    with Cons.prems have s: "scan_candidates q t rows (b, m) = (b', m')"
      by (simp add: scan_candidates_step del: scan_candidates.simps)
    note ih = Cons.IH[OF s]
    from ih have c1: "m' \<le> m" by simp
    have c2: "\<forall>r \<in> set (row # rows). is_candidate q t r \<longrightarrow> distance_to q r < m \<longrightarrow> m' \<le> distance_to q r"
      using ih False by auto
    from ih consider
      (same) "(b', m') = (b, m)"
        "\<forall>r \<in> set rows. is_candidate q t r \<longrightarrow> m \<le> distance_to q r"
      | (later) xs r ys where "rows = xs @ r # ys" "b' = Some (mem_id r)" "is_candidate q t r"
          "distance_to q r = m'" "m' < m"
          "\<forall>x \<in> set xs. is_candidate q t x \<longrightarrow> m' < distance_to q x"
      by blast
    then show ?thesis
    proof cases
      case same
      then show ?thesis using c1 c2 False by auto
    next
      case later
      have "\<exists>xs r ys. row # rows = xs @ r # ys \<and> b' = Some (mem_id r) \<and> is_candidate q t r \<and>
          distance_to q r = m' \<and> m' < m \<and>
          (\<forall>x \<in> set xs. is_candidate q t x \<longrightarrow> m' < distance_to q x)"
        using later False
        by (intro exI[of _ "row # xs"] exI[of _ r] exI[of _ ys]) auto
      then show ?thesis using c1 c2 by blast
    qed
  qed
qed

lemma find_first:
  "P r \<Longrightarrow> \<forall>x \<in> set xs. \<not> P x \<Longrightarrow> find P (xs @ r # ys) = Some r"
  by (induction xs) auto

lemma find_by_perceptual_hash_nearest_match:
  assumes t: "t < 1000"
    and ids: "distinct (map mem_id rows)"
    and ne: "\<forall>r \<in> set rows. mem_id r \<noteq> []"
  shows "find_by_perceptual_hash rows q t = nearest_match rows q t"
proof -
  obtain b' m' where s: "scan_candidates q t rows (None, 1000) = (b', m')"
    by (cases "scan_candidates q t rows (None, 1000)")
  have cand_lt: "distance_to q r < 1000" if "is_candidate q t r" for r
    using that t by (auto simp: is_candidate_def distance_to_def split: option.splits)
  note ch = scan_candidates_char[OF s]
  let ?cs = "filter (is_candidate q t) rows"
  from ch consider
    (none) "(b', m') = (None, 1000)" "\<forall>r \<in> set rows. is_candidate q t r \<longrightarrow> 1000 \<le> distance_to q r"
    | (some) xs r ys where "rows = xs @ r # ys" "b' = Some (mem_id r)" "is_candidate q t r"
          "distance_to q r = m'"
          "\<forall>x \<in> set xs. is_candidate q t x \<longrightarrow> m' < distance_to q x"
    by blast
  then show ?thesis
  proof cases
    case none
    then have "?cs = []" using cand_lt by (fastforce simp: filter_empty_conv)
    then show ?thesis using none s
      by (simp add: find_by_perceptual_hash_def nearest_match_def)
  next
    case some
    have rin: "r \<in> set rows" using some(1) by simp
    have cs: "?cs = filter (is_candidate q t) xs @ r # filter (is_candidate q t) ys"
      using some(1,3) by simp
    have lb: "\<forall>x \<in> set ?cs. m' \<le> distance_to q x"
      using ch cand_lt by auto
    have "Min (set (map (distance_to q) ?cs)) = m'"
    proof (rule Min_eqI)
      show "finite (set (map (distance_to q) ?cs))" by simp
      show "\<And>y. y \<in> set (map (distance_to q) ?cs) \<Longrightarrow> m' \<le> y" using lb by auto
      show "m' \<in> set (map (distance_to q) ?cs)" using some(3,4) rin by force
    qed
    moreover have "find (\<lambda>x. distance_to q x = m') (filter (is_candidate q t) xs @ r # filter (is_candidate q t) ys) = Some r"
      by (rule find_first) (use some in auto)
    ultimately have "nearest_match rows q t = Some r"
      unfolding nearest_match_def Let_def using cs by simp
    moreover have "find_by_perceptual_hash rows q t = Some r"
      using s some(2) ne rin get_memory_distinct[OF ids rin]
      by (simp add: find_by_perceptual_hash_def)
    ultimately show ?thesis by simp
  qed
qed

definition example_row :: "string \<Rightarrow> string option \<Rightarrow> string option \<Rightarrow> memory_record" where
  "example_row i c p =
     \<lparr>mem_id = i, content_hash = c, perceptual_hash = p, structured_content = PDict fmempty,
      summary = PStr [], version = 1, created_at = [], updated_at = [], metadata = PDict fmempty\<rparr>"

lemma hamming_distance_replicate:
  "a \<noteq> b \<Longrightarrow> hamming_distance (replicate n a) (replicate n b) = int n"
  by (simp add: hamming_distance_def zip_replicate)

text \<open>
  C2, as stated, fails in three ways. A row whose stored hash is the empty string is
  passed over, although it is at distance 0 from the empty query. A row at distance 1000
  is not returned under the threshold 1000, because the running minimum starts at 1000 and
  the comparison with it is strict. A row whose id is the empty string is selected by the
  loop and then dropped by the truth test on \<open>best_match\<close>.
\<close>

theorem nearest_match_counterexample:
  "(hamming_distance [] [] \<le> 4 \<and>
    find_by_perceptual_hash [example_row ''m1'' None (Some [])] [] 4 = None) \<and>
   (hamming_distance (replicate 1000 CHR ''a'') (replicate 1000 CHR ''b'') \<le> 1000 \<and>
    find_by_perceptual_hash [example_row ''m1'' None (Some (replicate 1000 CHR ''b''))]
      (replicate 1000 CHR ''a'') 1000 = None) \<and>
   (hamming_distance ''abcd'' ''abcd'' \<le> 4 \<and>
    find_by_perceptual_hash [example_row [] None (Some ''abcd'')] ''abcd'' 4 = None)"
proof -
  have a: "hamming_distance [] [] = 0"
    by (simp add: hamming_distance_def)
  have b: "hamming_distance (replicate 1000 CHR ''a'') (replicate 1000 CHR ''b'') = 1000"
    by (simp add: hamming_distance_replicate)
  have c: "hamming_distance ''abcd'' ''abcd'' = 0"
    by (simp add: hamming_distance_def)
  have nb: "replicate 1000 CHR ''b'' \<noteq> []"
    by simp
  show ?thesis
    using nb by (simp add: a b c find_by_perceptual_hash_def example_row_def Let_def)
qed

text \<open>
  C2, amended. For a threshold below 1000 and a table whose ids are distinct and not
  empty, the lookup returns the first row, among those with a non-empty perceptual hash
  within the threshold, whose distance to the query is minimal, and nothing when there is
  no such row. At the default threshold 4, a sole row at distance exactly 4 is returned
  and a sole row at distance 5 is not.
\<close>

theorem nearest_match_within_threshold:
  assumes "distinct (map mem_id rows)"
    and "\<forall>r \<in> set rows. mem_id r \<noteq> []"
    and "t < 1000"
  shows "find_by_perceptual_hash rows q t = nearest_match rows q t \<and>
         (rows = [r] \<and> distance_to q r = 4 \<longrightarrow> find_by_perceptual_hash rows q 4 = Some r) \<and>
         (rows = [r] \<and> distance_to q r = 5 \<longrightarrow> find_by_perceptual_hash rows q 4 = None)"
proof (intro conjI impI)
  show "find_by_perceptual_hash rows q t = nearest_match rows q t"
    by (rule find_by_perceptual_hash_nearest_match[OF assms(3,1,2)])
next
  assume h: "rows = [r] \<and> distance_to q r = 4"
  have "find_by_perceptual_hash rows q 4 = nearest_match rows q 4"
    using assms(1,2) by (intro find_by_perceptual_hash_nearest_match) auto
  moreover have "is_candidate q 4 r"
    using h by (auto simp: is_candidate_def distance_to_def hamming_distance_def
        split: option.splits if_splits)
  ultimately show "find_by_perceptual_hash rows q 4 = Some r"
    using h by (simp add: nearest_match_def)
next
  assume h: "rows = [r] \<and> distance_to q r = 5"
  have "find_by_perceptual_hash rows q 4 = nearest_match rows q 4"
    using assms(1,2) by (intro find_by_perceptual_hash_nearest_match) auto
  moreover have "\<not> is_candidate q 4 r"
    using h by (auto simp: is_candidate_def distance_to_def split: option.splits)
  ultimately show "find_by_perceptual_hash rows q 4 = None"
    using h by (simp add: nearest_match_def)
qed

theorem nearest_match_within_threshold_witness:
  "find_by_perceptual_hash [example_row ''m1'' None (Some ''abcdefgh'')] ''abcdxxxx'' 4
     = nearest_match [example_row ''m1'' None (Some ''abcdefgh'')] ''abcdxxxx'' 4 \<and>
   distance_to ''abcdxxxx'' (example_row ''m1'' None (Some ''abcdefgh'')) = 4 \<and>
   find_by_perceptual_hash [example_row ''m1'' None (Some ''abcdefgh'')] ''abcdxxxx'' 4
     = Some (example_row ''m1'' None (Some ''abcdefgh'')) \<and>
   distance_to ''abcxxxxx'' (example_row ''m1'' None (Some ''abcdefgh'')) = 5 \<and>
   find_by_perceptual_hash [example_row ''m1'' None (Some ''abcdefgh'')] ''abcxxxxx'' 4 = None"
proof -
  have d: "distance_to ''abcdxxxx'' (example_row ''m1'' None (Some ''abcdefgh'')) = 4"
    by (simp add: distance_to_def example_row_def hamming_distance_def)
  have e: "distance_to ''abcxxxxx'' (example_row ''m1'' None (Some ''abcdefgh'')) = 5"
    by (simp add: distance_to_def example_row_def hamming_distance_def)
  have ids: "distinct (map mem_id [example_row ''m1'' None (Some ''abcdefgh'')])"
    "\<forall>r \<in> set [example_row ''m1'' None (Some ''abcdefgh'')]. mem_id r \<noteq> []"
    by (simp_all add: example_row_def)
  have lt: "(4::int) < 1000"
    by simp
  note th = nearest_match_within_threshold
      [OF ids lt, of "''abcdxxxx''" "example_row ''m1'' None (Some ''abcdefgh'')"]
  note th' = nearest_match_within_threshold
      [OF ids lt, of "''abcxxxxx''" "example_row ''m1'' None (Some ''abcdefgh'')"]
  from th have a: "find_by_perceptual_hash [example_row ''m1'' None (Some ''abcdefgh'')] ''abcdxxxx'' 4
     = nearest_match [example_row ''m1'' None (Some ''abcdefgh'')] ''abcdxxxx'' 4"
    by (rule conjunct1)
  from th d have c: "find_by_perceptual_hash [example_row ''m1'' None (Some ''abcdefgh'')] ''abcdxxxx'' 4
     = Some (example_row ''m1'' None (Some ''abcdefgh''))"
    by blast
  from th' e have f: "find_by_perceptual_hash [example_row ''m1'' None (Some ''abcdefgh'')]
      ''abcxxxxx'' 4 = None"
    by blast
  from a d c e f show ?thesis
    by (intro conjI)
qed

section \<open>The patcher: properties\<close>

text \<open>
  The value found at a path that leads through dictionaries only, and the document with
  the value at such a path replaced.
\<close>

fun get_path :: "pyval \<Rightarrow> string list \<Rightarrow> pyval option" where
  "get_path v [] = Some v"
| "get_path v (k # ks) =
     (case v of
        PDict d \<Rightarrow> (case fmlookup d k of None \<Rightarrow> None | Some c \<Rightarrow> get_path c ks)
      | _ \<Rightarrow> None)"

fun put_path :: "pyval \<Rightarrow> string list \<Rightarrow> pyval \<Rightarrow> pyval" where
  "put_path v [] w = w"
| "put_path v (k # ks) w =
     (case v of
        PDict d \<Rightarrow>
          (case fmlookup d k of None \<Rightarrow> v | Some c \<Rightarrow> PDict (fmupd k (put_path c ks w) d))
      | _ \<Rightarrow> v)"

text \<open>
  The same two notions for the walk of \<open>_add_to_nested\<close>, which puts an empty dictionary
  under every key it misses: the container the walk arrives at, and the document rebuilt
  around a new container.
\<close>

fun reach :: "pyval \<Rightarrow> string list \<Rightarrow> pyval option" where
  "reach v [] = Some v"
| "reach v (k # ks) =
     (case v of
        PDict d \<Rightarrow> reach (case fmlookup d k of None \<Rightarrow> PDict fmempty | Some c \<Rightarrow> c) ks
      | _ \<Rightarrow> None)"

fun rebuild :: "pyval \<Rightarrow> string list \<Rightarrow> pyval \<Rightarrow> pyval" where
  "rebuild v [] w = w"
| "rebuild v (k # ks) w =
     (case v of
        PDict d \<Rightarrow>
          PDict (fmupd k
            (rebuild (case fmlookup d k of None \<Rightarrow> PDict fmempty | Some c \<Rightarrow> c) ks w) d)
      | _ \<Rightarrow> v)"

text \<open>
  The rule of the specification for \<open>add\<close> on a mapping: an absent key is set; a
  sequence under the key is extended; any other value \<open>old\<close> under the key becomes the
  sequence \<open>[old, new]\<close>.
\<close>

definition coalesce :: "(string, pyval) fmap \<Rightarrow> string \<Rightarrow> pyval \<Rightarrow> (string, pyval) fmap" where
  "coalesce d k v =
     (case fmlookup d k of
        None \<Rightarrow> fmupd k v d
      | Some existing \<Rightarrow>
          (case existing of
             PList xs \<Rightarrow> fmupd k (PList (xs @ [v])) d
           | _ \<Rightarrow> fmupd k (PList [existing, v]) d))"

lemma add_to_nested_descend:
  "rest \<noteq> [] \<Longrightarrow> add_to_nested (PDict d) (key # rest) v =
     (case add_to_nested (case fmlookup d key of None \<Rightarrow> PDict fmempty | Some c \<Rightarrow> c) rest v of
        Inl e \<Rightarrow> Inl e
      | Inr c' \<Rightarrow> Inr (PDict (fmupd key c' d)))"
  by (cases rest) simp_all

lemma update_nested_descend:
  "rest \<noteq> [] \<Longrightarrow> update_nested (PDict d) (key # rest) v =
     (case update_nested (case fmlookup d key of None \<Rightarrow> PDict fmempty | Some c \<Rightarrow> c) rest v of
        Inl e \<Rightarrow> Inl e
      | Inr c' \<Rightarrow> Inr (PDict (fmupd key c' d)))"
  by (cases rest) simp_all

lemma remove_from_nested_descend:
  "rest \<noteq> [] \<Longrightarrow> remove_from_nested (PDict d) (key # rest) =
     (case fmlookup d key of
        None \<Rightarrow> Inr (PDict d)
      | Some c \<Rightarrow>
          (case remove_from_nested c rest of
             Inl e \<Rightarrow> Inl e
           | Inr c' \<Rightarrow> Inr (PDict (fmupd key c' d))))"
  by (cases rest) (simp_all split: option.splits)

lemma add_to_nested_reach:
  "reach cur ps = Some (PDict d) \<Longrightarrow>
   add_to_nested cur (ps @ [k]) v = Inr (rebuild cur ps (PDict (coalesce d k v)))"
proof (induction ps arbitrary: cur)
  case Nil
  then show ?case
    by (simp add: coalesce_def split: option.splits pyval.splits)
next
  case (Cons p ps)
  from Cons.prems obtain m where cur: "cur = PDict m"
    and g: "reach (case fmlookup m p of None \<Rightarrow> PDict fmempty | Some c \<Rightarrow> c) ps = Some (PDict d)"
    by (auto split: pyval.splits)
  from Cons.IH[OF g] show ?case
    by (simp add: cur add_to_nested_descend)
qed

lemma get_path_reach:
  "get_path cur ps = Some w \<Longrightarrow> reach cur ps = Some w \<and> rebuild cur ps u = put_path cur ps u"
  by (induction ps arbitrary: cur) (auto split: pyval.splits option.splits)

lemma add_to_nested_at:
  "get_path cur ps = Some (PDict d) \<Longrightarrow>
   add_to_nested cur (ps @ [k]) v = Inr (put_path cur ps (PDict (coalesce d k v)))"
  using add_to_nested_reach[of cur ps d k v] get_path_reach[of cur ps "PDict d"]
  by simp

lemma remove_from_nested_at:
  "get_path cur ps = Some (PDict d) \<Longrightarrow> k |\<in>| fmdom d \<Longrightarrow>
   remove_from_nested cur (ps @ [k]) = Inr (put_path cur ps (PDict (fmdrop k d)))"
proof (induction ps arbitrary: cur)
  case Nil
  then show ?case by simp
next
  case (Cons p ps)
  from Cons.prems obtain m c where cur: "cur = PDict m" and c: "fmlookup m p = Some c"
    and g: "get_path c ps = Some (PDict d)"
    by (auto split: pyval.splits option.splits)
  from Cons.IH[OF g Cons.prems(2)] show ?case
    by (simp add: cur c remove_from_nested_descend)
qed

lemma update_nested_at:
  "get_path cur ps = Some (PDict d) \<Longrightarrow>
   update_nested cur (ps @ [k]) v = Inr (put_path cur ps (PDict (fmupd k v d)))"
proof (induction ps arbitrary: cur)
  case Nil
  then show ?case by simp
next
  case (Cons p ps)
  from Cons.prems obtain m c where cur: "cur = PDict m" and c: "fmlookup m p = Some c"
    and g: "get_path c ps = Some (PDict d)"
    by (auto split: pyval.splits option.splits)
  from Cons.IH[OF g] show ?case
    by (simp add: cur c update_nested_descend)
qed

text \<open>
  C5. An \<open>add\<close> whose path ends at a key of a mapping (the mapping the walk over the
  earlier keys arrives at) follows the rule of the specification: the key is set when
  absent, a sequence under it is extended, any other value is paired with the new one in
  a two-element sequence. In particular \<open>{"k": "x"}\<close> with \<open>add k = "y"\<close> gives
  \<open>{"k": ["x", "y"]}\<close>.
\<close>

theorem add_coalesces:
  assumes "reach (PDict base) ps = Some (PDict d)"
  shows "apply_diff base
           [\<lparr>op = ''add'', path = ps @ [k], old_value = ov, new_value = v, confidence = c\<rparr>]
           = Inr (rebuild (PDict base) ps (PDict (coalesce d k v))) \<and>
         apply_diff (fmupd ''k'' (PStr ''x'') fmempty)
           [\<lparr>op = ''add'', path = [''k''], old_value = PNone, new_value = PStr ''y'',
             confidence = 1\<rparr>]
           = Inr (PDict (fmupd ''k'' (PList [PStr ''x'', PStr ''y'']) fmempty))"
proof
  show "apply_diff base
           [\<lparr>op = ''add'', path = ps @ [k], old_value = ov, new_value = v, confidence = c\<rparr>]
           = Inr (rebuild (PDict base) ps (PDict (coalesce d k v)))"
    using add_to_nested_reach[OF assms, of k v]
    by (simp add: apply_diff_def apply_operation_def)
  show "apply_diff (fmupd ''k'' (PStr ''x'') fmempty)
           [\<lparr>op = ''add'', path = [''k''], old_value = PNone, new_value = PStr ''y'',
             confidence = 1\<rparr>]
           = Inr (PDict (fmupd ''k'' (PList [PStr ''x'', PStr ''y'']) fmempty))"
    by (simp add: apply_diff_def apply_operation_def)
qed

theorem add_coalesces_witness:
  "reach (PDict (fmupd ''a'' (PDict (fmupd ''k'' (PList [PInt 1]) fmempty)) fmempty)) [''a'']
     = Some (PDict (fmupd ''k'' (PList [PInt 1]) fmempty)) \<and>
   apply_diff (fmupd ''a'' (PDict (fmupd ''k'' (PList [PInt 1]) fmempty)) fmempty)
     [\<lparr>op = ''add'', path = [''a'', ''k''], old_value = PNone, new_value = PInt 2,
       confidence = 1\<rparr>]
     = Inr (PDict (fmupd ''a'' (PDict (fmupd ''k'' (PList [PInt 1, PInt 2]) fmempty)) fmempty))"
proof -
  have r: "reach (PDict (fmupd ''a'' (PDict (fmupd ''k'' (PList [PInt 1]) fmempty)) fmempty))
      [''a''] = Some (PDict (fmupd ''k'' (PList [PInt 1]) fmempty))"
    by simp
  from add_coalesces[OF r, of "''k''" PNone "PInt 2" 1] r show ?thesis
    by (simp add: coalesce_def)
qed

text \<open>
  C9. The scalar-list diff gives the \<open>remove\<close> of an element the path of the list
  itself. Applied to a document that holds a list under the key \<open>k\<close> at that path, the
  operation deletes the entry \<open>k\<close> of the enclosing mapping, the whole list, whatever
  element the operation names.
\<close>

theorem remove_deletes_whole_list:
  assumes "get_path (PDict base) ps = Some (PDict d)"
    and "fmlookup d k = Some (PList xs)"
  shows "apply_diff base
           [\<lparr>op = ''remove'', path = ps @ [k], old_value = x, new_value = nv, confidence = c\<rparr>]
           = Inr (put_path (PDict base) ps (PDict (fmdrop k d)))"
proof -
  from assms(2) have "k |\<in>| fmdom d"
    by (simp add: fmdomI)
  from remove_from_nested_at[OF assms(1) this] show ?thesis
    by (simp add: apply_diff_def apply_operation_def)
qed

theorem remove_deletes_whole_list_witness:
  "get_path (PDict (fmupd ''k'' (PList [PInt 1, PInt 2]) fmempty)) []
     = Some (PDict (fmupd ''k'' (PList [PInt 1, PInt 2]) fmempty)) \<and>
   fmlookup (fmupd ''k'' (PList [PInt 1, PInt 2]) fmempty) ''k'' = Some (PList [PInt 1, PInt 2]) \<and>
   apply_diff (fmupd ''k'' (PList [PInt 1, PInt 2]) fmempty)
     [\<lparr>op = ''remove'', path = [''k''], old_value = PInt 1, new_value = PNone,
       confidence = 1\<rparr>]
     = Inr (PDict fmempty)"
proof -
  have g: "get_path (PDict (fmupd ''k'' (PList [PInt 1, PInt 2]) fmempty)) []
     = Some (PDict (fmupd ''k'' (PList [PInt 1, PInt 2]) fmempty))"
    by simp
  have l: "fmlookup (fmupd ''k'' (PList [PInt 1, PInt 2]) fmempty) ''k''
     = Some (PList [PInt 1, PInt 2])"
    by simp
  from remove_deletes_whole_list[OF g l, of "PInt 1" PNone 1] g l show ?thesis
    by (simp add: fmdrop_fmupd_same)
qed

text \<open>
  C6 fails on the code. \<open>int(path[-1])\<close> raises \<open>ValueError\<close> on a key that is not a
  number, and the \<open>except\<close> clause of \<open>apply_diff\<close> names \<open>KeyError\<close>, \<open>IndexError\<close> and
  \<open>TypeError\<close> only: the exception leaves \<open>apply_diff\<close>, and the operation that follows
  is never applied.
\<close>

theorem apply_diff_raises_value_error:
  "apply_diff (fmupd ''a'' (PList [PInt 1]) fmempty)
     [\<lparr>op = ''update'', path = [''a'', ''x''], old_value = PNone, new_value = PInt 2,
       confidence = 1\<rparr>,
      \<lparr>op = ''add'', path = [''b''], old_value = PNone, new_value = PInt 3,
       confidence = 1\<rparr>]
   = Inl ValueError"
  by (simp add: apply_diff_def apply_operation_def py_int_def py_strip_def is_space_def
      parse_nat_def is_digit_def)

section \<open>The diff engine: properties\<close>

text \<open>The two operations that \<open>_compare_lists\<close> appends for a list of scalars.\<close>

definition add_op :: "string list \<Rightarrow> pyval \<Rightarrow> diff_operation" where
  "add_op p x = \<lparr>op = ''add'', path = p, old_value = PNone, new_value = x, confidence = 1\<rparr>"

definition remove_op :: "string list \<Rightarrow> pyval \<Rightarrow> diff_operation" where
  "remove_op p x =
     \<lparr>op = ''remove'', path = p, old_value = x, new_value = PNone, confidence = 1\<rparr>"

lemma compare_lists_primitive:
  "list_all is_primitive old_list \<Longrightarrow> list_all is_primitive new_list \<Longrightarrow>
   compare_lists old_list new_list p =
     map (add_op p) (filter (\<lambda>x. \<not> py_in x old_list) new_list) @
     map (remove_op p) (filter (\<lambda>x. \<not> py_in x new_list) old_list)"
  by (simp add: compare_lists_def add_op_def remove_op_def)

lemma add_op_inj: "add_op p x = add_op p y \<longleftrightarrow> x = y"
  by (auto simp: add_op_def)

lemma remove_op_inj: "remove_op p x = remove_op p y \<longleftrightarrow> x = y"
  by (auto simp: remove_op_def)

lemma add_op_neq_remove_op: "add_op p x \<noteq> remove_op p y"
  by (simp add: add_op_def remove_op_def)

lemma count_list_map_inj:
  "(\<And>y. f y = f x \<longleftrightarrow> y = x) \<Longrightarrow> count_list (map f xs) (f x) = count_list xs x"
  by (induction xs) auto

lemma count_list_filter:
  "count_list (filter P xs) x = (if P x then count_list xs x else 0)"
  by (induction xs) auto

lemma count_list_map_other:
  "(\<And>y. f y \<noteq> z) \<Longrightarrow> count_list (map f xs) z = 0"
  by (induction xs) auto

text \<open>
  C3, as stated, fails in two ways. Duplicates of a value that only one of the lists has
  do not collapse: the value 4, twice in the new list and absent from the old one, is
  added twice. And \<open>None\<close> is not among the types of the test for the simple case: a
  list that holds it is compared as a whole and gives one \<open>update\<close> of confidence 0.8.
\<close>

theorem scalar_lists_counterexample:
  "(list_all is_primitive [PInt 1] \<and> list_all is_primitive [PInt 4, PInt 4] \<and>
    compare_lists [PInt 1] [PInt 4, PInt 4] [''k'']
      = [add_op [''k''] (PInt 4), add_op [''k''] (PInt 4), remove_op [''k''] (PInt 1)]) \<and>
   compare_lists [PNone, PInt 1] [PInt 1] [''k'']
     = [\<lparr>op = ''update'', path = [''k''], old_value = PList [PNone, PInt 1],
         new_value = PList [PInt 1], confidence = 4 / 5\<rparr>]"
  by (simp add: compare_lists_def py_in_def add_op_def remove_op_def)

text \<open>
  C3, amended. For two lists of strings, numbers and booleans the comparison is by
  membership: every occurrence in the new list of a value that the old list does not
  contain gives one \<open>add\<close>, every occurrence in the old list of a value that the new list
  does not contain gives one \<open>remove\<close>, a value that both lists contain gives nothing
  however often it occurs, and nothing else is emitted. The set of operations depends on
  the sets of elements only, not on their order. Diffing \<open>[1,2,2,3]\<close> against \<open>[2,3,4]\<close>
  gives one \<open>add\<close> of 4 and one \<open>remove\<close> of 1.
\<close>

theorem scalar_lists_by_membership:
  assumes "list_all is_primitive old_list" and "list_all is_primitive new_list"
  shows "count_list (compare_lists old_list new_list p) (add_op p x)
           = (if py_in x old_list then 0 else count_list new_list x) \<and>
         count_list (compare_lists old_list new_list p) (remove_op p x)
           = (if py_in x new_list then 0 else count_list old_list x) \<and>
         (\<forall>operation \<in> set (compare_lists old_list new_list p).
            \<exists>y. operation = add_op p y \<or> operation = remove_op p y) \<and>
         (list_all is_primitive old_list' \<and> list_all is_primitive new_list' \<and>
          set old_list' = set old_list \<and> set new_list' = set new_list \<longrightarrow>
            set (compare_lists old_list' new_list' p) = set (compare_lists old_list new_list p)) \<and>
         compare_lists [PInt 1, PInt 2, PInt 2, PInt 3] [PInt 2, PInt 3, PInt 4] p
           = [add_op p (PInt 4), remove_op p (PInt 1)]"
proof (intro conjI)
  note cl = compare_lists_primitive[OF assms, of p]
  have a1: "count_list (map (add_op p) xs) (add_op p x) = count_list xs x" for xs
    by (rule count_list_map_inj) (simp add: add_op_inj)
  have a2: "count_list (map (remove_op p) xs) (add_op p x) = 0" for xs
    by (rule count_list_map_other) (simp add: add_op_neq_remove_op[symmetric])
  have r1: "count_list (map (remove_op p) xs) (remove_op p x) = count_list xs x" for xs
    by (rule count_list_map_inj) (simp add: remove_op_inj)
  have r2: "count_list (map (add_op p) xs) (remove_op p x) = 0" for xs
    by (rule count_list_map_other) (simp add: add_op_neq_remove_op)
  show "count_list (compare_lists old_list new_list p) (add_op p x)
           = (if py_in x old_list then 0 else count_list new_list x)"
    by (simp add: cl a1 a2 count_list_filter)
  show "count_list (compare_lists old_list new_list p) (remove_op p x)
           = (if py_in x new_list then 0 else count_list old_list x)"
    by (simp add: cl r1 r2 count_list_filter)
  show "\<forall>operation \<in> set (compare_lists old_list new_list p).
            \<exists>y. operation = add_op p y \<or> operation = remove_op p y"
    by (auto simp: cl)
  show "list_all is_primitive old_list' \<and> list_all is_primitive new_list' \<and>
          set old_list' = set old_list \<and> set new_list' = set new_list \<longrightarrow>
            set (compare_lists old_list' new_list' p) = set (compare_lists old_list new_list p)"
  proof
    assume h: "list_all is_primitive old_list' \<and> list_all is_primitive new_list' \<and>
          set old_list' = set old_list \<and> set new_list' = set new_list"
    then have i1: "py_in y old_list' = py_in y old_list"
      and i2: "py_in y new_list' = py_in y new_list" for y
      by (simp_all add: py_in_def list_ex_iff)
    from h have "compare_lists old_list' new_list' p =
      map (add_op p) (filter (\<lambda>x. \<not> py_in x old_list') new_list') @
      map (remove_op p) (filter (\<lambda>x. \<not> py_in x new_list') old_list')"
      by (intro compare_lists_primitive) auto
    then show "set (compare_lists old_list' new_list' p) = set (compare_lists old_list new_list p)"
      using h by (simp add: cl i1 i2)
  qed
  show "compare_lists [PInt 1, PInt 2, PInt 2, PInt 3] [PInt 2, PInt 3, PInt 4] p
           = [add_op p (PInt 4), remove_op p (PInt 1)]"
    by (simp add: compare_lists_def py_in_def add_op_def remove_op_def)
qed

theorem scalar_lists_by_membership_witness:
  "list_all is_primitive [PInt 1, PStr ''a'', PStr ''a''] \<and>
   list_all is_primitive [PStr ''b'', PFloat 1, PStr ''b''] \<and>
   count_list (compare_lists [PInt 1, PStr ''a'', PStr ''a''] [PStr ''b'', PFloat 1, PStr ''b'']
       [''k'']) (add_op [''k''] (PStr ''b'')) = 2 \<and>
   count_list (compare_lists [PInt 1, PStr ''a'', PStr ''a''] [PStr ''b'', PFloat 1, PStr ''b'']
       [''k'']) (remove_op [''k''] (PInt 1)) = 0 \<and>
   set (compare_lists [PStr ''a'', PInt 1] [PFloat 1, PStr ''b''] [''k''])
     = set (compare_lists [PInt 1, PStr ''a'', PStr ''a''] [PStr ''b'', PFloat 1, PStr ''b'']
         [''k''])"
proof -
  have p: "list_all is_primitive [PInt 1, PStr ''a'', PStr ''a'']"
    "list_all is_primitive [PStr ''b'', PFloat 1, PStr ''b'']"
    by simp_all
  have q: "list_all is_primitive [PStr ''a'', PInt 1] \<and>
           list_all is_primitive [PFloat 1, PStr ''b''] \<and>
           set [PStr ''a'', PInt 1] = set [PInt 1, PStr ''a'', PStr ''a''] \<and>
           set [PFloat 1, PStr ''b''] = set [PStr ''b'', PFloat 1, PStr ''b'']"
    by auto
  have i: "\<not> py_in (PStr ''b'') [PInt 1, PStr ''a'', PStr ''a'']"
    "py_in (PInt 1) [PStr ''b'', PFloat 1, PStr ''b'']"
    by (simp_all add: py_in_def)
  note th1 = scalar_lists_by_membership
      [OF p, of "[''k'']" "PStr ''b''" "[PStr ''a'', PInt 1]" "[PFloat 1, PStr ''b'']"]
  note th2 = scalar_lists_by_membership
      [OF p, of "[''k'']" "PInt 1" "[PStr ''a'', PInt 1]" "[PFloat 1, PStr ''b'']"]
  from th1 i(1) have c1: "count_list (compare_lists [PInt 1, PStr ''a'', PStr ''a'']
       [PStr ''b'', PFloat 1, PStr ''b''] [''k'']) (add_op [''k''] (PStr ''b'')) = 2"
    by simp
  from th2 i(2) have c2: "count_list (compare_lists [PInt 1, PStr ''a'', PStr ''a'']
       [PStr ''b'', PFloat 1, PStr ''b''] [''k'']) (remove_op [''k''] (PInt 1)) = 0"
    by simp
  from th1 q have c3: "set (compare_lists [PStr ''a'', PInt 1] [PFloat 1, PStr ''b''] [''k''])
     = set (compare_lists [PInt 1, PStr ''a'', PStr ''a''] [PStr ''b'', PFloat 1, PStr ''b'']
         [''k''])"
    by blast
  from p c1 c2 c3 show ?thesis
    by (intro conjI)
qed


text \<open>
  The similarity function in the words of the specification: identical values give 1;
  two strings give the Jaccard similarity of their sets of lower-cased words, 0 when one
  of the sets is empty; two numbers \<open>a\<close>, \<open>b\<close> give \<open>1 - |a - b| / max(|a|, |b|)\<close>, with 1
  when both are zero and 0 when one of them is; anything else gives 0.
\<close>

definition word_set :: "string \<Rightarrow> string set" where
  "word_set s = set (py_split (py_lower s))"

definition jaccard :: "string set \<Rightarrow> string set \<Rightarrow> rat" where
  "jaccard A B =
     (if A = {} \<or> B = {} then 0 else of_nat (card (A \<inter> B)) / of_nat (card (A \<union> B)))"

fun number_value :: "pyval \<Rightarrow> rat option" where
  "number_value (PInt i) = Some (of_int i)"
| "number_value (PFloat r) = Some r"
| "number_value _ = None"

definition similarity :: "pyval \<Rightarrow> pyval \<Rightarrow> rat" where
  "similarity a b =
     (if a = b then 1
      else case (a, b) of
        (PStr s, PStr t) \<Rightarrow> jaccard (word_set s) (word_set t)
      | _ \<Rightarrow>
          (case (number_value a, number_value b) of
             (Some x, Some y) \<Rightarrow>
               if x = 0 \<and> y = 0 then 1
               else if x = 0 \<or> y = 0 then 0
               else 1 - \<bar>x - y\<bar> / max \<bar>x\<bar> \<bar>y\<bar>
           | _ \<Rightarrow> 0))"

text \<open>The values that are neither lists nor dictionaries.\<close>

fun is_scalar :: "pyval \<Rightarrow> bool" where
  "is_scalar (PList _) = False"
| "is_scalar (PDict _) = False"
| "is_scalar _ = True"

lemma py_split_Nil: "py_split [] = []"
  by (simp add: py_split_def)

lemma compute_similarity_same_type:
  assumes "is_scalar a" and "type_of a = type_of b" and "a \<noteq> b"
  shows "\<not> py_eq a b \<and> compute_similarity a b = similarity a b"
proof (cases a)
  case PNone
  with assms show ?thesis by (cases b) simp_all
next
  case (PBool x)
  with assms show ?thesis
    by (cases b) (auto simp: compute_similarity_def similarity_def)
next
  case (PInt i)
  with assms show ?thesis
    by (cases b) (auto simp: compute_similarity_def similarity_def)
next
  case (PFloat r)
  with assms show ?thesis
    by (cases b) (auto simp: compute_similarity_def similarity_def)
next
  case (PStr s)
  with assms show ?thesis
    by (cases b)
      (auto simp: compute_similarity_def similarity_def jaccard_def word_set_def Let_def
        py_split_Nil py_lower_def)
next
  case (PList xs)
  with assms show ?thesis by simp
next
  case (PDict d)
  with assms show ?thesis by simp
qed

text \<open>
  C4, as stated, fails: a string against a number is an \<open>update\<close> of confidence 1, where
  the similarity function gives 0. The test on the types comes first in
  \<open>_compare_values\<close> and fixes the confidence of a change of type at 1.
\<close>

theorem update_confidence_counterexample:
  "compare_values sorted_iter (PStr ''a'') (PInt 1) [''k'']
     = [\<lparr>op = ''update'', path = [''k''], old_value = PStr ''a'', new_value = PInt 1,
         confidence = 1\<rparr>] \<and>
   similarity (PStr ''a'') (PInt 1) = 0"
  by (simp add: similarity_def)

text \<open>
  C4, amended. Two different scalars give one \<open>update\<close>. When they are of the same type
  its confidence is the similarity of the specification; when their types differ it is 1.
  The similarity of \<open>"a b c"\<close> and \<open>"a b d"\<close> is \<open>1/2\<close>.
\<close>

theorem update_confidence:
  assumes "is_scalar a" and "is_scalar b" and "a \<noteq> b"
  shows "compare_values iter a b p
           = [\<lparr>op = ''update'', path = p, old_value = a, new_value = b,
               confidence = (if type_of a = type_of b then similarity a b else 1)\<rparr>] \<and>
         similarity (PStr ''a b c'') (PStr ''a b d'') = 1 / 2"
proof
  show "compare_values iter a b p
           = [\<lparr>op = ''update'', path = p, old_value = a, new_value = b,
               confidence = (if type_of a = type_of b then similarity a b else 1)\<rparr>]"
  proof (cases "type_of a = type_of b")
    case True
    from compute_similarity_same_type[OF assms(1) True assms(3)] True assms(1) show ?thesis
      by (cases a) simp_all
  next
    case False
    then show ?thesis by simp
  qed
  show "similarity (PStr ''a b c'') (PStr ''a b d'') = 1 / 2"
    by code_simp
qed

theorem update_confidence_witness:
  "is_scalar (PInt 3) \<and> is_scalar (PInt 4) \<and> PInt 3 \<noteq> PInt 4 \<and>
   compare_values sorted_iter (PInt 3) (PInt 4) [''k'']
     = [\<lparr>op = ''update'', path = [''k''], old_value = PInt 3, new_value = PInt 4,
         confidence = 3 / 4\<rparr>]"
proof -
  have h: "is_scalar (PInt 3)" "is_scalar (PInt 4)" "PInt 3 \<noteq> PInt 4"
    by simp_all
  have s: "similarity (PInt 3) (PInt 4) = 3 / 4"
    by (simp add: similarity_def)
  from update_confidence[OF h, of sorted_iter "[''k'']"] h s show ?thesis
    by simp
qed


section \<open>Summary regeneration: properties\<close>

lemma is_substr_Nil: "is_substr k [] \<Longrightarrow> k = []"
  by simp

lemma is_significant_nonempty: "is_significant p \<Longrightarrow> p \<noteq> []"
  by (auto simp: is_significant_def)

lemma describe_change_total:
  "is_significant (path change) \<Longrightarrow> \<exists>r. describe_change fmt change = Inr r"
  by (auto simp: describe_change_def path_last_def dest: is_significant_nonempty
      split: pyval.splits)

lemma significant_changes_total: "\<exists>ss. significant_changes fmt changes = Inr ss"
proof (induction changes)
  case Nil
  then show ?case by simp
next
  case (Cons change changes)
  then obtain ss where ss: "significant_changes fmt changes = Inr ss"
    by blast
  show ?case
  proof (cases "is_significant (path change)")
    case True
    from describe_change_total[OF this, of fmt] obtain r
      where "describe_change fmt change = Inr r"
      by blast
    with True ss show ?thesis
      by (cases r) simp_all
  next
    case False
    with ss show ?thesis by simp
  qed
qed

lemma significant_changes_none:
  "\<forall>change \<in> set changes. \<not> is_significant (path change) \<Longrightarrow>
   significant_changes fmt changes = Inr []"
  by (induction changes) simp_all

text \<open>
  C8, as stated, fails: a prior summary of more than 500 characters is returned as it is
  when no change is significant.
\<close>

theorem summary_length_counterexample:
  "generate_incremental_summary fmt_example (replicate 501 CHR ''a'')
     [\<lparr>op = ''update'', path = [''confidence''], old_value = PInt 1, new_value = PInt 2,
       confidence = 1 / 2\<rparr>] (PDict fmempty)
     = Inr (replicate 501 CHR ''a'') \<and>
   \<not> length (replicate 501 CHR ''a'') \<le> 500"
proof -
  have "\<not> is_significant [''confidence'']"
    by (simp add: is_significant_def)
  then show ?thesis
    by (simp add: generate_incremental_summary_def)
qed

text \<open>
  C8, amended. Summary regeneration always returns a summary. When at least one
  description of a significant change is collected, the summary is at most 500 characters
  long: it is the merged text when that has at most 500 characters, and otherwise its
  first 497 characters followed by the ellipsis \<open>...\<close>. When no description is collected,
  in particular when no change touches a significant field, the prior summary is returned
  unchanged, whatever its length.
\<close>

theorem summary_capped_or_unchanged:
  "\<exists>s ss. generate_incremental_summary fmt old_summary changes new_content = Inr s \<and>
     significant_changes fmt changes = Inr ss \<and>
     (ss = [] \<longrightarrow> s = old_summary) \<and>
     (ss \<noteq> [] \<longrightarrow>
        length s \<le> 500 \<and>
        (let u = updated_summary old_summary (py_join ''; '' (take 3 ss))
         in if length u > 500 then s = take 497 u @ ''...'' else s = u)) \<and>
     ((\<forall>change \<in> set changes. \<not> is_significant (path change)) \<longrightarrow> s = old_summary)"
proof -
  obtain ss where ss: "significant_changes fmt changes = Inr ss"
    using significant_changes_total by blast
  show ?thesis
  proof (cases "ss = []")
    case True
    with ss show ?thesis
      by (simp add: generate_incremental_summary_def)
  next
    case False
    then have ne: "changes \<noteq> []"
      using ss by auto
    have ns: "\<not> (\<forall>change \<in> set changes. \<not> is_significant (path change))"
      using significant_changes_none[of changes fmt] ss False by auto
    let ?u = "updated_summary old_summary (py_join ''; '' (take 3 ss))"
    show ?thesis
    proof (cases "length ?u > 500")
      case True
      then have "generate_incremental_summary fmt old_summary changes new_content
          = Inr (take 497 ?u @ ''...'')"
        using ss False ne by (simp add: generate_incremental_summary_def Let_def)
      moreover have "length (take 497 ?u @ ''...'') \<le> 500"
        by simp
      ultimately show ?thesis
        using ss False True ns by (auto simp: Let_def)
    next
      case le: False
      then have "generate_incremental_summary fmt old_summary changes new_content = Inr ?u"
        using ss False ne by (simp add: generate_incremental_summary_def Let_def)
      then show ?thesis
        using ss False le ns by (auto simp: Let_def)
    qed
  qed
qed

theorem summary_capped_or_unchanged_witness:
  "significant_changes fmt_example
       [\<lparr>op = ''add'', path = [''key_points''], old_value = PNone, new_value = PStr ''v'',
         confidence = 1\<rparr>] = Inr [''Added key_points: v''] \<and>
   (case generate_incremental_summary fmt_example ''Screen''
       [\<lparr>op = ''add'', path = [''key_points''], old_value = PNone, new_value = PStr ''v'',
         confidence = 1\<rparr>] (PDict fmempty) of
      Inl e \<Rightarrow> False
    | Inr s \<Rightarrow> length s \<le> 500 \<and> s = ''Screen [Updated: Added key_points: v]'') \<and>
   \<not> is_significant [''confidence''] \<and>
   (case generate_incremental_summary fmt_example ''Screen''
       [\<lparr>op = ''update'', path = [''confidence''], old_value = PInt 1, new_value = PInt 2,
         confidence = 1 / 2\<rparr>] (PDict fmempty) of
      Inl e \<Rightarrow> False
    | Inr s \<Rightarrow> s = ''Screen'')"
proof -
  have sig: "is_significant [''key_points'']"
    by (simp add: is_significant_def)
  have nsig: "\<not> is_significant [''confidence'']"
    by (simp add: is_significant_def)
  have ss: "significant_changes fmt_example
       [\<lparr>op = ''add'', path = [''key_points''], old_value = PNone, new_value = PStr ''v'',
         confidence = 1\<rparr>] = Inr [''Added key_points: v'']"
    using sig by (simp add: describe_change_def path_last_def)
  have u: "updated_summary ''Screen'' (py_join ''; '' (take 3 [''Added key_points: v'']))
      = ''Screen [Updated: Added key_points: v]''"
    by (simp add: updated_summary_def)
  from summary_capped_or_unchanged[of fmt_example "''Screen''"
      "[\<lparr>op = ''add'', path = [''key_points''], old_value = PNone, new_value = PStr ''v'',
         confidence = 1\<rparr>]" "PDict fmempty"] ss u
  have a: "case generate_incremental_summary fmt_example ''Screen''
       [\<lparr>op = ''add'', path = [''key_points''], old_value = PNone, new_value = PStr ''v'',
         confidence = 1\<rparr>] (PDict fmempty) of
      Inl e \<Rightarrow> False
    | Inr s \<Rightarrow> length s \<le> 500 \<and> s = ''Screen [Updated: Added key_points: v]''"
    by (auto simp: Let_def)
  from summary_capped_or_unchanged[of fmt_example "''Screen''"
      "[\<lparr>op = ''update'', path = [''confidence''], old_value = PInt 1, new_value = PInt 2,
         confidence = 1 / 2\<rparr>]" "PDict fmempty"] nsig
  have b: "case generate_incremental_summary fmt_example ''Screen''
       [\<lparr>op = ''update'', path = [''confidence''], old_value = PInt 1, new_value = PInt 2,
         confidence = 1 / 2\<rparr>] (PDict fmempty) of
      Inl e \<Rightarrow> False
    | Inr s \<Rightarrow> s = ''Screen''"
    by auto
  from ss a nsig b show ?thesis
    by (intro conjI)
qed

section \<open>Diff and patch together\<close>

lemma fmran_size [termination_simp]:
  "v |\<in>| fmran m \<Longrightarrow>
   size v < Suc (\<Sum>x\<in>fset (fset_of_fmap m). Suc (case x of (k, w) \<Rightarrow> size w))"
  by (rule fmran'_size) (simp add: fmran'_alt_def)

text \<open>A value without any list in it: scalars and mappings only.\<close>

fun no_lists :: "pyval \<Rightarrow> bool" where
  "no_lists (PList xs) = False"
| "no_lists (PDict d) = fBall (fmran d) no_lists"
| "no_lists v = True"

text \<open>A value in which no key of any mapping begins with an underscore.\<close>

fun no_private :: "pyval \<Rightarrow> bool" where
  "no_private (PList xs) = list_all no_private xs"
| "no_private (PDict d) =
     (fBall (fmdom d) (\<lambda>k. \<not> startswith_underscore k) \<and> fBall (fmran d) no_private)"
| "no_private v = True"

lemma get_path_append:
  "get_path D (ps @ qs) = (case get_path D ps of None \<Rightarrow> None | Some v \<Rightarrow> get_path v qs)"
  by (induction ps arbitrary: D) (auto split: pyval.splits option.splits)

lemma put_path_append:
  "get_path D ps = Some v \<Longrightarrow> put_path D (ps @ qs) w = put_path D ps (put_path v qs w)"
  by (induction ps arbitrary: D) (auto split: pyval.splits option.splits)

lemma get_path_put_path:
  "get_path D ps = Some v \<Longrightarrow> get_path (put_path D ps w) ps = Some w"
  by (induction ps arbitrary: D) (auto split: pyval.splits option.splits)

lemma put_path_put_path:
  "get_path D ps = Some v \<Longrightarrow> put_path (put_path D ps w) ps u = put_path D ps u"
  by (induction ps arbitrary: D) (auto split: pyval.splits option.splits)

lemma put_path_same:
  "get_path D ps = Some v \<Longrightarrow> put_path D ps v = D"
proof (induction ps arbitrary: D)
  case Nil
  then show ?case by simp
next
  case (Cons p ps)
  from Cons.prems obtain m c where D: "D = PDict m" and c: "fmlookup m p = Some c"
    and g: "get_path c ps = Some v"
    by (auto split: pyval.splits option.splits)
  have "fmupd p c m = m"
    using c by (intro fmap_ext) auto
  with Cons.IH[OF g] show ?case
    by (simp add: D c)
qed

lemma update_nested_path:
  "p \<noteq> [] \<Longrightarrow> get_path D p = Some old \<Longrightarrow> update_nested D p v = Inr (put_path D p v)"
proof (induction p arbitrary: D)
  case Nil
  then show ?case by simp
next
  case (Cons k ks)
  from Cons.prems(2) obtain m c where D: "D = PDict m" and c: "fmlookup m k = Some c"
    and g: "get_path c ks = Some old"
    by (auto split: pyval.splits option.splits)
  show ?case
  proof (cases "ks = []")
    case True
    then show ?thesis by (simp add: D c)
  next
    case False
    from Cons.IH[OF False g] False show ?thesis
      by (simp add: D c update_nested_descend)
  qed
qed

lemma apply_operations_append:
  "apply_operations c (xs @ ys) =
     (case apply_operations c xs of Inl e \<Rightarrow> Inl e | Inr c' \<Rightarrow> apply_operations c' ys)"
  by (induction xs arbitrary: c) (auto split: sum.splits)

lemma apply_update:
  assumes "p \<noteq> []" and "get_path D p = Some old"
  shows "apply_operations D
           [\<lparr>op = ''update'', path = p, old_value = ov, new_value = v, confidence = c\<rparr>]
         = Inr (put_path D p v)"
  using update_nested_path[OF assms, of v] by (simp add: apply_operation_def)

lemma apply_add:
  assumes "get_path D p = Some (PDict m)" and "fmlookup m k = None"
  shows "apply_operations D
           [\<lparr>op = ''add'', path = p @ [k], old_value = ov, new_value = v, confidence = c\<rparr>]
         = Inr (put_path D p (PDict (fmupd k v m)))"
  using add_to_nested_at[OF assms(1), of k v] assms(2)
  by (simp add: apply_operation_def coalesce_def)

lemma apply_remove:
  assumes "get_path D p = Some (PDict m)" and "fmlookup m k = Some old"
  shows "apply_operations D
           [\<lparr>op = ''remove'', path = p @ [k], old_value = ov, new_value = v, confidence = c\<rparr>]
         = Inr (put_path D p (PDict (fmdrop k m)))"
proof -
  from assms(2) have "k |\<in>| fmdom m"
    by (simp add: fmdomI)
  from remove_from_nested_at[OF assms(1) this] show ?thesis
    by (simp add: apply_operation_def)
qed

lemma same_type_py_eq:
  "type_of a = type_of b \<Longrightarrow> is_scalar a \<Longrightarrow> py_eq a b \<Longrightarrow> a = b"
  by (cases a; cases b) (auto split: if_splits)

text \<open>
  The effect of one turn of the loop of \<open>_compare_dicts\<close> on the mapping under the path:
  the key takes the binding that it has in the new mapping.
\<close>

definition take_binding ::
  "(string, pyval) fmap \<Rightarrow> string \<Rightarrow> (string, pyval) fmap \<Rightarrow> (string, pyval) fmap" where
  "take_binding b k m = (case fmlookup b k of None \<Rightarrow> fmdrop k m | Some v \<Rightarrow> fmupd k v m)"

lemma fmlookup_fold_take_binding:
  "fmlookup (fold (take_binding b) ks m) k =
     (if k \<in> set ks then fmlookup b k else fmlookup m k)"
  by (induction ks arbitrary: m) (auto simp: take_binding_def split: option.splits)

lemma fold_take_binding_all:
  assumes "set ks = fset (fmdom a |\<union>| fmdom b)"
  shows "fold (take_binding b) ks a = b"
proof (rule fmap_ext)
  fix k
  show "fmlookup (fold (take_binding b) ks a) k = fmlookup b k"
  proof (cases "k \<in> set ks")
    case True
    then show ?thesis by (simp add: fmlookup_fold_take_binding)
  next
    case False
    with assms have "k |\<notin>| fmdom a" "k |\<notin>| fmdom b"
      by auto
    then have "fmlookup a k = None" "fmlookup b k = None"
      by auto
    with False show ?thesis by (simp add: fmlookup_fold_take_binding)
  qed
qed

text \<open>The operations that one turn of the loop of \<open>_compare_dicts\<close> appends.\<close>

definition key_ops ::
  "(string list \<Rightarrow> string fset \<Rightarrow> string list) \<Rightarrow> (string, pyval) fmap
    \<Rightarrow> (string, pyval) fmap \<Rightarrow> string list \<Rightarrow> string \<Rightarrow> diff_operation list" where
  "key_ops iter a b p key =
     (if startswith_underscore key then []
      else
        case fmlookup a key of
          None \<Rightarrow>
            [\<lparr>op = ''add'', path = p @ [key], old_value = PNone,
              new_value = dict_get b key, confidence = 1\<rparr>]
        | Some old_val \<Rightarrow>
            (case fmlookup b key of
               None \<Rightarrow>
                 [\<lparr>op = ''remove'', path = p @ [key], old_value = old_val,
                   new_value = PNone, confidence = 1\<rparr>]
             | Some new_val \<Rightarrow> compare_values iter old_val new_val (p @ [key])))"

lemma compare_dicts_key_ops:
  "compare_dicts iter a b p = concat (map (key_ops iter a b p) (iter p (fmdom a |\<union>| fmdom b)))"
  by (simp add: key_ops_def[abs_def])

lemma compute_structured_diff_compare_dicts:
  "compute_structured_diff iter old new = compare_dicts iter old new []"
  unfolding compute_structured_diff_def compare_dicts.simps append_Nil
  by (rule refl)

lemma key_loop:
  assumes step: "\<And>k old new D'. k \<in> set ks \<Longrightarrow> fmlookup a k = Some old \<Longrightarrow>
        fmlookup b k = Some new \<Longrightarrow> get_path D' (p @ [k]) = Some old \<Longrightarrow>
        apply_operations D' (compare_values iter old new (p @ [k]))
          = Inr (put_path D' (p @ [k]) new)"
    and "distinct ks"
    and "set ks \<subseteq> fset (fmdom a |\<union>| fmdom b)"
    and "\<forall>k \<in> set ks. \<not> startswith_underscore k"
    and "get_path D p = Some w"
    and "\<forall>k \<in> set ks. fmlookup m k = fmlookup a k"
  shows "apply_operations (put_path D p (PDict m)) (concat (map (key_ops iter a b p) ks))
         = Inr (put_path D p (PDict (fold (take_binding b) ks m)))"
  using assms
proof (induction ks arbitrary: m)
  case Nil
  then show ?case by simp
next
  case (Cons k ks)
  let ?D = "put_path D p (PDict m)"
  have gD: "get_path ?D p = Some (PDict m)"
    using Cons.prems(5) by (rule get_path_put_path)
  have mk: "fmlookup m k = fmlookup a k"
    using Cons.prems(6) by simp
  have nu: "\<not> startswith_underscore k"
    using Cons.prems(4) by simp
  have one: "apply_operations ?D (key_ops iter a b p k)
      = Inr (put_path D p (PDict (take_binding b k m)))"
  proof (cases "fmlookup a k")
    case None
    with Cons.prems(3) obtain v where v: "fmlookup b k = Some v"
      by (auto simp: fmlookup_dom_iff)
    have "apply_operations ?D (key_ops iter a b p k) = Inr (put_path ?D p (PDict (fmupd k v m)))"
      using apply_add[OF gD, of k PNone v 1] mk None v nu
      by (simp add: key_ops_def dict_get_def)
    then show ?thesis
      using v put_path_put_path[OF Cons.prems(5)] by (simp add: take_binding_def)
  next
    case (Some old)
    show ?thesis
    proof (cases "fmlookup b k")
      case None
      have "apply_operations ?D (key_ops iter a b p k) = Inr (put_path ?D p (PDict (fmdrop k m)))"
        using apply_remove[OF gD, of k old old PNone 1] mk Some None nu
        by (simp add: key_ops_def)
      then show ?thesis
        using None put_path_put_path[OF Cons.prems(5)] by (simp add: take_binding_def)
    next
      case new: (Some new)
      have g: "get_path ?D (p @ [k]) = Some old"
        using gD mk Some by (simp add: get_path_append)
      have "apply_operations ?D (key_ops iter a b p k) = Inr (put_path ?D (p @ [k]) new)"
        using Cons.prems(1)[of k old new ?D] Some new g nu by (simp add: key_ops_def)
      also have "put_path ?D (p @ [k]) new = put_path ?D p (PDict (fmupd k new m))"
        using put_path_append[OF gD, of "[k]" new] mk Some by simp
      finally show ?thesis
        using new put_path_put_path[OF Cons.prems(5)] by (simp add: take_binding_def)
    qed
  qed
  have rest: "apply_operations (put_path D p (PDict (take_binding b k m)))
        (concat (map (key_ops iter a b p) ks))
      = Inr (put_path D p (PDict (fold (take_binding b) ks (take_binding b k m))))"
  proof (rule Cons.IH)
    show "\<And>k' old new D'. k' \<in> set ks \<Longrightarrow> fmlookup a k' = Some old \<Longrightarrow>
        fmlookup b k' = Some new \<Longrightarrow> get_path D' (p @ [k']) = Some old \<Longrightarrow>
        apply_operations D' (compare_values iter old new (p @ [k']))
          = Inr (put_path D' (p @ [k']) new)"
      using Cons.prems(1) by simp
    show "distinct ks" using Cons.prems(2) by simp
    show "set ks \<subseteq> fset (fmdom a |\<union>| fmdom b)" using Cons.prems(3) by simp
    show "\<forall>k \<in> set ks. \<not> startswith_underscore k" using Cons.prems(4) by simp
    show "get_path D p = Some w" by (rule Cons.prems(5))
    show "\<forall>k' \<in> set ks. fmlookup (take_binding b k m) k' = fmlookup a k'"
      using Cons.prems(2,6) by (auto simp: take_binding_def split: option.splits)
  qed
  show ?case
    using one rest by (simp add: apply_operations_append)
qed

lemma compare_values_patch:
  assumes iter: "valid_iter iter"
  shows "p \<noteq> [] \<Longrightarrow> no_lists old \<Longrightarrow> no_lists new \<Longrightarrow> no_private old \<Longrightarrow> no_private new \<Longrightarrow>
         get_path D p = Some old \<Longrightarrow>
         apply_operations D (compare_values iter old new p) = Inr (put_path D p new)"
proof (induction old arbitrary: new p D)
  case (PList xs)
  then show ?case by simp
next
  case (PDict a)
  show ?case
  proof (cases "type_of new = TDict")
    case False
    then show ?thesis
      using apply_update[OF PDict.prems(1,6)] by (cases new) simp_all
  next
    case True
    then obtain b where new: "new = PDict b"
      by (cases new) simp_all
    let ?ks = "iter p (fmdom a |\<union>| fmdom b)"
    have ks: "distinct ?ks" "set ?ks = fset (fmdom a |\<union>| fmdom b)"
      using iter by (simp_all add: valid_iter_def)
    have "apply_operations (put_path D p (PDict a)) (concat (map (key_ops iter a b p) ?ks))
         = Inr (put_path D p (PDict (fold (take_binding b) ?ks a)))"
    proof (rule key_loop)
      fix k old new' D'
      assume k: "k \<in> set ?ks" and o: "fmlookup a k = Some old" and n: "fmlookup b k = Some new'"
        and g: "get_path D' (p @ [k]) = Some old"
      from o have ro: "old \<in> fmran' a" by (rule fmran'I)
      then have ro': "old |\<in>| fmran a" by (simp add: fmran'_alt_def)
      from n have "new' \<in> fmran' b" by (rule fmran'I)
      then have rn': "new' |\<in>| fmran b" by (simp add: fmran'_alt_def)
      show "apply_operations D' (compare_values iter old new' (p @ [k]))
          = Inr (put_path D' (p @ [k]) new')"
      proof (rule PDict.IH[OF ro])
        show "p @ [k] \<noteq> []" by simp
        show "no_lists old" using PDict.prems(2) ro' by auto
        show "no_lists new'" using PDict.prems(3) rn' new by auto
        show "no_private old" using PDict.prems(4) ro' by auto
        show "no_private new'" using PDict.prems(5) rn' new by auto
        show "get_path D' (p @ [k]) = Some old" by (rule g)
      qed
    next
      show "distinct ?ks" by (rule ks)
      show "set ?ks \<subseteq> fset (fmdom a |\<union>| fmdom b)" using ks by simp
      show "\<forall>k \<in> set ?ks. \<not> startswith_underscore k"
        using ks PDict.prems(4,5) new by auto
      show "get_path D p = Some (PDict a)" by (rule PDict.prems(6))
      show "\<forall>k \<in> set ?ks. fmlookup a k = fmlookup a k" by simp
    qed
    then show ?thesis
      using put_path_same[OF PDict.prems(6)] fold_take_binding_all[OF ks(2)] new
      by (simp add: compare_dicts_key_ops del: compare_dicts.simps)
  qed
next
  case PNone
  show ?case
  proof (cases "new = PNone")
    case True
    then show ?thesis using put_path_same[OF PNone.prems(6)] by simp
  next
    case False
    then show ?thesis using apply_update[OF PNone.prems(1,6)] by (cases new) simp_all
  qed
next
  case (PBool x)
  show ?case
  proof (cases "new = PBool x")
    case True
    then show ?thesis using put_path_same[OF PBool.prems(6)] by simp
  next
    case False
    then show ?thesis using apply_update[OF PBool.prems(1,6)] by (cases new) auto
  qed
next
  case (PInt x)
  show ?case
  proof (cases "new = PInt x")
    case True
    then show ?thesis using put_path_same[OF PInt.prems(6)] by simp
  next
    case False
    then show ?thesis using apply_update[OF PInt.prems(1,6)] by (cases new) auto
  qed
next
  case (PFloat x)
  show ?case
  proof (cases "new = PFloat x")
    case True
    then show ?thesis using put_path_same[OF PFloat.prems(6)] by simp
  next
    case False
    then show ?thesis using apply_update[OF PFloat.prems(1,6)] by (cases new) auto
  qed
next
  case (PStr x)
  show ?case
  proof (cases "new = PStr x")
    case True
    then show ?thesis using put_path_same[OF PStr.prems(6)] by simp
  next
    case False
    then show ?thesis using apply_update[OF PStr.prems(1,6)] by (cases new) auto
  qed
qed

lemma compare_dicts_patch_root:
  assumes "valid_iter iter" and "no_lists (PDict old)" and "no_lists (PDict new)"
    and "no_private (PDict old)" and "no_private (PDict new)"
  shows "apply_operations (PDict old) (compare_dicts iter old new []) = Inr (PDict new)"
proof -
  let ?ks = "iter [] (fmdom old |\<union>| fmdom new)"
  have ks: "distinct ?ks" "set ?ks = fset (fmdom old |\<union>| fmdom new)"
    using assms(1) by (simp_all add: valid_iter_def)
  have "apply_operations (put_path (PDict old) [] (PDict old))
          (concat (map (key_ops iter old new []) ?ks))
        = Inr (put_path (PDict old) [] (PDict (fold (take_binding new) ?ks old)))"
  proof (rule key_loop)
    fix k ov nv D'
    assume o: "fmlookup old k = Some ov" and n: "fmlookup new k = Some nv"
      and g: "get_path D' ([] @ [k]) = Some ov"
    from o have "ov \<in> fmran' old" by (rule fmran'I)
    then have ro: "ov |\<in>| fmran old" by (simp add: fmran'_alt_def)
    from n have "nv \<in> fmran' new" by (rule fmran'I)
    then have rn: "nv |\<in>| fmran new" by (simp add: fmran'_alt_def)
    show "apply_operations D' (compare_values iter ov nv ([] @ [k]))
          = Inr (put_path D' ([] @ [k]) nv)"
    proof (rule compare_values_patch[OF assms(1)])
      show "[] @ [k] \<noteq> []" by simp
      show "no_lists ov" using assms(2) ro by auto
      show "no_lists nv" using assms(3) rn by auto
      show "no_private ov" using assms(4) ro by auto
      show "no_private nv" using assms(5) rn by auto
      show "get_path D' ([] @ [k]) = Some ov" by (rule g)
    qed
  next
    show "distinct ?ks" by (rule ks)
    show "set ?ks \<subseteq> fset (fmdom old |\<union>| fmdom new)" using ks by simp
    show "\<forall>k \<in> set ?ks. \<not> startswith_underscore k"
      using ks assms(4,5) by auto
    show "get_path (PDict old) [] = Some (PDict old)" by simp
    show "\<forall>k \<in> set ?ks. fmlookup old k = fmlookup old k" by simp
  qed
  then show ?thesis
    using fold_take_binding_all[OF ks(2)]
    by (simp add: compare_dicts_key_ops del: compare_dicts.simps)
qed

lemma valid_iter_sorted_iter: "valid_iter sorted_iter"
  by (simp add: valid_iter_def sorted_iter_def sorted_list_of_fset.rep_eq)

lemma fmran_single: "fmran (fmupd k v fmempty) = {|v|}"
  by (auto simp: fmlookup_ran_iff split: if_splits)

text \<open>
  C1, as stated, fails: the diff passes over every key that begins with an underscore, so
  a difference under such a key is not carried over. From \<open>{"_a": 1}\<close> to \<open>{}\<close> the
  diff is empty and the patch returns \<open>{"_a": 1}\<close>.
\<close>

theorem diff_patch_counterexample:
  "no_lists (PDict (fmupd ''_a'' (PInt 1) fmempty)) \<and> no_lists (PDict fmempty) \<and>
   compute_structured_diff sorted_iter (fmupd ''_a'' (PInt 1) fmempty) fmempty = [] \<and>
   apply_diff (fmupd ''_a'' (PInt 1) fmempty)
     (compute_structured_diff sorted_iter (fmupd ''_a'' (PInt 1) fmempty) fmempty)
     = Inr (PDict (fmupd ''_a'' (PInt 1) fmempty)) \<and>
   PDict (fmupd ''_a'' (PInt 1) fmempty) \<noteq> PDict fmempty"
proof -
  have ks: "set (sorted_iter [] (fmdom (fmupd ''_a'' (PInt 1) fmempty) |\<union>| fmdom fmempty))
      = {''_a''}"
    by (simp add: sorted_iter_def)
  have d: "compute_structured_diff sorted_iter (fmupd ''_a'' (PInt 1) fmempty) fmempty = []"
    unfolding compute_structured_diff_def concat_eq_Nil_conv set_map ks
    by (simp add: startswith_underscore_def)
  have ne: "fmupd ''_a'' (PInt 1) fmempty \<noteq> fmempty"
  proof
    assume "fmupd ''_a'' (PInt 1) fmempty = fmempty"
    then have "fmlookup (fmupd ''_a'' (PInt 1) fmempty) ''_a'' = fmlookup fmempty ''_a''"
      by simp
    then show False by simp
  qed
  have nl: "no_lists (PDict (fmupd ''_a'' (PInt 1) fmempty))"
    by (simp add: fmran_single)
  show ?thesis
    using ne nl by (simp add: d apply_diff_def)
qed

text \<open>
  C1, amended. For documents that contain scalars and mappings only and in which no
  key of any mapping begins with an underscore, patching \<open>X\<close> with the diff of \<open>X\<close>
  against \<open>Y\<close> gives \<open>Y\<close>, whatever the order in which the sets of keys are iterated.
\<close>

theorem diff_patch_roundtrip:
  assumes "valid_iter iter"
    and "no_lists (PDict X)" and "no_lists (PDict Y)"
    and "no_private (PDict X)" and "no_private (PDict Y)"
  shows "apply_diff X (compute_structured_diff iter X Y) = Inr (PDict Y)"
  using compare_dicts_patch_root[OF assms]
  by (simp add: apply_diff_def compute_structured_diff_compare_dicts del: compare_dicts.simps)

theorem diff_patch_roundtrip_witness:
  "valid_iter sorted_iter \<and>
   no_lists (PDict (fmupd ''a'' (PInt 1) fmempty)) \<and>
   no_lists (PDict (fmupd ''a'' (PDict (fmupd ''b'' (PStr ''x'') fmempty)) fmempty)) \<and>
   no_private (PDict (fmupd ''a'' (PInt 1) fmempty)) \<and>
   no_private (PDict (fmupd ''a'' (PDict (fmupd ''b'' (PStr ''x'') fmempty)) fmempty)) \<and>
   apply_diff (fmupd ''a'' (PInt 1) fmempty)
     (compute_structured_diff sorted_iter (fmupd ''a'' (PInt 1) fmempty)
        (fmupd ''a'' (PDict (fmupd ''b'' (PStr ''x'') fmempty)) fmempty))
     = Inr (PDict (fmupd ''a'' (PDict (fmupd ''b'' (PStr ''x'') fmempty)) fmempty))"
proof -
  have u: "\<not> startswith_underscore ''a''" "\<not> startswith_underscore ''b''"
    by (simp_all add: startswith_underscore_def)
  have h: "no_lists (PDict (fmupd ''a'' (PInt 1) fmempty))"
    "no_lists (PDict (fmupd ''a'' (PDict (fmupd ''b'' (PStr ''x'') fmempty)) fmempty))"
    "no_private (PDict (fmupd ''a'' (PInt 1) fmempty))"
    "no_private (PDict (fmupd ''a'' (PDict (fmupd ''b'' (PStr ''x'') fmempty)) fmempty))"
    using u by (simp_all add: fmran_single)
  from diff_patch_roundtrip[OF valid_iter_sorted_iter h] valid_iter_sorted_iter h
  show ?thesis
    by (intro conjI)
qed


section \<open>The engine: properties\<close>




end
